theory Spec2Isabelle
  imports Main
begin

section \<open>The store (db.ts)\<close>

subsection \<open>Events as the loader reads them\<close>

text \<open>
  An event is a JavaScript object of unknown shape. The loader reads nine of its
  properties and serialises the whole object. A property that is \<open>null\<close> or
  \<open>undefined\<close> is \<open>None\<close>; a present one holds what \<open>String(...)\<close> makes of it.
  \<open>json\<close> is \<open>JSON.stringify(e)\<close>.

  A timestamp property is kept as what \<open>normalizeTimestamp\<close> can observe of it:
  whether it is falsy, whether \<open>new Date(ts)\<close> is an invalid date (or throws), and
  otherwise the UTC calendar fields of the date.
\<close>

datatype ts_value =
    TsFalsy
  | TsInvalid
  | TsDate int nat nat nat nat nat nat

record event =
  eid :: "string option"
  event_name :: "string option"
  type' :: "string option"
  name' :: "string option"
  user_id :: "string option"
  userId :: "string option"
  timestamp :: "ts_value option"
  created_at :: "ts_value option"
  createdAt :: "ts_value option"
  json :: string

text \<open>The operator \<open>a ?? b\<close>.\<close>

definition nullish :: "'a option \<Rightarrow> 'a option \<Rightarrow> 'a option" where
  "nullish a b = (case a of None \<Rightarrow> b | Some x \<Rightarrow> Some x)"

definition nullish_default :: "'a option \<Rightarrow> 'a \<Rightarrow> 'a" where
  "nullish_default a d = (case a of None \<Rightarrow> d | Some x \<Rightarrow> x)"

subsection \<open>normalizeTimestamp\<close>

definition digit :: "nat \<Rightarrow> char" where
  "digit n = ''0123456789'' ! (n mod 10)"

definition pad2 :: "nat \<Rightarrow> string" where
  "pad2 n = [digit (n div 10), digit n]"

definition pad3 :: "nat \<Rightarrow> string" where
  "pad3 n = [digit (n div 100), digit (n div 10), digit n]"

definition pad4 :: "nat \<Rightarrow> string" where
  "pad4 n = digit (n div 1000) # pad3 n"

definition pad6 :: "nat \<Rightarrow> string" where
  "pad6 n = [digit (n div 100000), digit (n div 10000)] @ pad4 n"

text \<open>
  \<open>Date.prototype.toISOString\<close>: four digits for the years 0 to 9999, a sign and six
  digits otherwise.
\<close>

definition iso_year :: "int \<Rightarrow> string" where
  "iso_year y =
     (if 0 \<le> y \<and> y \<le> 9999 then pad4 (nat y)
      else if y < 0 then CHR ''-'' # pad6 (nat (- y))
      else CHR ''+'' # pad6 (nat y))"

definition toISOString :: "int \<Rightarrow> nat \<Rightarrow> nat \<Rightarrow> nat \<Rightarrow> nat \<Rightarrow> nat \<Rightarrow> nat \<Rightarrow> string" where
  "toISOString y mo d h mi s ms =
     iso_year y @ ''-'' @ pad2 mo @ ''-'' @ pad2 d @ ''T'' @ pad2 h @ '':'' @ pad2 mi
       @ '':'' @ pad2 s @ ''.'' @ pad3 ms @ ''Z''"

definition epoch_zero :: string where
  "epoch_zero = toISOString 1970 1 1 0 0 0 0"

definition normalizeTimestamp :: "ts_value option \<Rightarrow> string" where
  "normalizeTimestamp ts =
     (case ts of
        None \<Rightarrow> epoch_zero
      | Some TsFalsy \<Rightarrow> epoch_zero
      | Some TsInvalid \<Rightarrow> epoch_zero
      | Some (TsDate y mo d h mi s ms) \<Rightarrow> toISOString y mo d h mi s ms)"

subsection \<open>escapeForCopy\<close>

definition BACKSLASH :: char where
  "BACKSLASH = CHR 0x5C"

definition LF :: char where
  "LF = CHR 0x0A"

definition CR :: char where
  "CR = CHR 0x0D"

definition TAB :: char where
  "TAB = CHR 0x09"

text \<open>\<open>val.replace(/c/g, s)\<close> for a one-character pattern.\<close>

definition replace_all :: "char \<Rightarrow> string \<Rightarrow> string \<Rightarrow> string" where
  "replace_all c s val = concat (map (\<lambda>x. if x = c then s else [x]) val)"

definition escapeForCopy :: "string \<Rightarrow> string" where
  "escapeForCopy val =
     replace_all TAB [BACKSLASH, CHR ''t'']
       (replace_all CR [BACKSLASH, CHR ''r'']
         (replace_all LF [BACKSLASH, CHR ''n'']
           (replace_all BACKSLASH [BACKSLASH, BACKSLASH] val)))"

subsection \<open>The tables\<close>

text \<open>
  A row of \<open>events\<close>: id, event_name, user_id, timestamp, raw. The table is the list of
  its rows in insertion order; \<open>id\<close> is its primary key. \<open>ingestion_state\<close> holds at
  most the row with id 1: its next_cursor and total_processed. \<open>stmts\<close> is the list of
  statements the server has received.
\<close>

type_synonym row = "string \<times> string \<times> string \<times> string \<times> string"

datatype stmt =
    Connect
  | Begin
  | CreateStaging
  | CopyStaging
  | MergeStaging
  | Commit
  | Rollback
  | Release
  | InsertChunk nat
  | UpdateState

record database =
  events :: "row list"
  ingestion_state :: "(string option \<times> int) option"
  stmts :: "stmt list"

datatype db_error = ConnectFailed | QueryFailed stmt

definition row_id :: "row \<Rightarrow> string" where
  "row_id r = fst r"

text \<open>
  \<open>INSERT INTO events ... ON CONFLICT (id) DO NOTHING\<close> over a sequence of proposed
  rows: each row is inserted unless a row with its id is there already, be it an older
  row or one inserted earlier by the same statement. The rows of the staging table are
  proposed in the order in which COPY has written them.
\<close>

fun insert_do_nothing :: "row list \<Rightarrow> row list \<Rightarrow> row list" where
  "insert_do_nothing [] tbl = tbl"
| "insert_do_nothing (r # rs) tbl =
     insert_do_nothing rs (if row_id r \<in> row_id ` set tbl then tbl else tbl @ [r])"

text \<open>
  \<open>COPY ... FROM STDIN WITH (FORMAT text)\<close> as the server reads it: lines end with a
  newline, columns are separated by tabs, and in a column a backslash escapes the
  character after it. A line that has not five columns is an error.
\<close>

fun split_on :: "char \<Rightarrow> string \<Rightarrow> string list" where
  "split_on c [] = [[]]"
| "split_on c (x # xs) =
     (if x = c then [] # split_on c xs
      else (case split_on c xs of [] \<Rightarrow> [[x]] | y # ys \<Rightarrow> (x # y) # ys))"

definition unescape_char :: "char \<Rightarrow> char" where
  "unescape_char d =
     (if d = CHR ''n'' then LF else if d = CHR ''r'' then CR
      else if d = CHR ''t'' then TAB else d)"

fun copy_unescape :: "string \<Rightarrow> string" where
  "copy_unescape [] = []"
| "copy_unescape [c] = [c]"
| "copy_unescape (c # d # cs) =
     (if c = BACKSLASH then unescape_char d # copy_unescape cs
      else c # copy_unescape (d # cs))"

definition copy_line :: "string \<Rightarrow> row option" where
  "copy_line l =
     (case map copy_unescape (split_on TAB l) of
        [a, b, c, d, e] \<Rightarrow> Some (a, b, c, d, e)
      | _ \<Rightarrow> None)"

fun copy_lines :: "string list \<Rightarrow> row list option" where
  "copy_lines [] = Some []"
| "copy_lines (l # ls) =
     (case copy_line l of
        None \<Rightarrow> None
      | Some r \<Rightarrow> (case copy_lines ls of None \<Rightarrow> None | Some rs \<Rightarrow> Some (r # rs)))"

definition copy_from_stdin :: "string \<Rightarrow> row list option" where
  "copy_from_stdin copyData = copy_lines (butlast (split_on LF copyData))"

subsection \<open>saveProgress and the reads of the checkpoint\<close>

definition initDb :: "database \<Rightarrow> database" where
  "initDb db =
     db\<lparr>ingestion_state :=
          (case ingestion_state db of None \<Rightarrow> Some (None, 0) | Some st \<Rightarrow> Some st)\<rparr>"

definition getCursor :: "database \<Rightarrow> string option" where
  "getCursor db = (case ingestion_state db of None \<Rightarrow> None | Some (c, n) \<Rightarrow> c)"

definition getTotalProcessed :: "database \<Rightarrow> int" where
  "getTotalProcessed db = (case ingestion_state db of None \<Rightarrow> 0 | Some (c, n) \<Rightarrow> n)"

text \<open>\<open>fails\<close> says whether the server rejects the statement; then the promise rejects.\<close>

definition saveProgress ::
  "bool \<Rightarrow> string option \<Rightarrow> int \<Rightarrow> database \<Rightarrow> (db_error + unit) \<times> database" where
  "saveProgress fails cursor count db =
     (if fails then (Inl (QueryFailed UpdateState), db\<lparr>stmts := stmts db @ [UpdateState]\<rparr>)
      else (Inr (),
            db\<lparr>ingestion_state :=
                 (case ingestion_state db of
                    None \<Rightarrow> None
                  | Some (c, n) \<Rightarrow> Some (cursor, n + count)),
               stmts := stmts db @ [UpdateState]\<rparr>))"

subsection \<open>bulkInsertEvents and fallbackInsert\<close>

text \<open>The five values both paths send for an event, before any escaping.\<close>

definition event_values :: "event \<Rightarrow> row" where
  "event_values e =
     (nullish_default (eid e) '''',
      nullish_default (nullish (event_name e) (nullish (type' e) (name' e))) '''',
      nullish_default (nullish (user_id e) (userId e)) '''',
      normalizeTimestamp (nullish (timestamp e) (nullish (created_at e) (createdAt e))),
      json e)"

definition copy_row :: "event \<Rightarrow> string" where
  "copy_row e =
     (let id = escapeForCopy (nullish_default (eid e) '''');
          eventName =
            escapeForCopy (nullish_default (nullish (event_name e) (nullish (type' e) (name' e))) '''');
          userId = escapeForCopy (nullish_default (nullish (user_id e) (userId e)) '''');
          ts = normalizeTimestamp (nullish (timestamp e) (nullish (created_at e) (createdAt e)));
          raw = escapeForCopy (json e)
      in id @ [TAB] @ eventName @ [TAB] @ userId @ [TAB] @ ts @ [TAB] @ raw)"

text \<open>\<open>rows.join(sep)\<close>.\<close>

fun join :: "string \<Rightarrow> string list \<Rightarrow> string" where
  "join sep [] = []"
| "join sep [r] = r"
| "join sep (r # rs) = r @ sep @ join sep rs"

definition CHUNK :: nat where
  "CHUNK = 500"

text \<open>
  What can go wrong at the server: \<open>connect_fails\<close> for \<open>pool.connect()\<close>,
  \<open>stage_fails\<close> for the first statement of the transaction that fails (if any), and
  \<open>chunk_fails i\<close> for the insert of the chunk that starts at index \<open>i\<close>.
\<close>

record faults =
  connect_fails :: bool
  stage_fails :: "stmt option"
  chunk_fails :: "nat \<Rightarrow> bool"

function fallback_loop ::
  "(nat \<Rightarrow> bool) \<Rightarrow> event list \<Rightarrow> nat \<Rightarrow> nat \<Rightarrow> database \<Rightarrow> (db_error + nat) \<times> database" where
  "fallback_loop fails evs i inserted db =
     (if i < length evs then
        (let chunk = take CHUNK (drop i evs);
             vals = map event_values chunk;
             db1 = db\<lparr>stmts := stmts db @ [InsertChunk i]\<rparr>
         in if fails i then (Inl (QueryFailed (InsertChunk i)), db1)
            else fallback_loop fails evs (i + CHUNK) (inserted + length chunk)
                   (db1\<lparr>events := insert_do_nothing vals (events db1)\<rparr>))
      else (Inr inserted, db))"
  by pat_completeness auto
termination
  by (relation "measure (\<lambda>(fails, evs, i, inserted, db). length evs - i)")
     (auto simp: CHUNK_def)

definition fallbackInsert ::
  "(nat \<Rightarrow> bool) \<Rightarrow> event list \<Rightarrow> database \<Rightarrow> (db_error + nat) \<times> database" where
  "fallbackInsert fails evs db = fallback_loop fails evs 0 0 db"

text \<open>
  The statements of the \<open>try\<close> block, in order, on a connection. The transaction works
  on its own view of \<open>events\<close>; the result is the committed table and the statements
  sent, or \<open>None\<close> for the table when a statement failed and control went to \<open>catch\<close>.
\<close>

definition primary_path :: "stmt option \<Rightarrow> event list \<Rightarrow> row list \<Rightarrow> row list option \<times> stmt list" where
  "primary_path fail evs tbl =
     (let rows = map copy_row evs;
          copyData = join [LF] rows @ [LF]
      in if fail = Some Begin then (None, [Begin])
         else if fail = Some CreateStaging then (None, [Begin, CreateStaging])
         else
           (case (if fail = Some CopyStaging then None else copy_from_stdin copyData) of
              None \<Rightarrow> (None, [Begin, CreateStaging, CopyStaging])
            | Some staging \<Rightarrow>
                if fail = Some MergeStaging
                then (None, [Begin, CreateStaging, CopyStaging, MergeStaging])
                else
                  (let tbl1 = insert_do_nothing staging tbl
                   in if fail = Some Commit
                      then (None, [Begin, CreateStaging, CopyStaging, MergeStaging, Commit])
                      else (Some tbl1,
                            [Begin, CreateStaging, CopyStaging, MergeStaging, Commit]))))"

definition bulkInsertEvents :: "faults \<Rightarrow> event list \<Rightarrow> database \<Rightarrow> (db_error + nat) \<times> database" where
  "bulkInsertEvents f evs db =
     (if length evs = 0 then (Inr 0, db)
      else if connect_fails f then (Inl ConnectFailed, db\<lparr>stmts := stmts db @ [Connect]\<rparr>)
      else
        (case primary_path (stage_fails f) evs (events db) of
           (Some tbl1, sent) \<Rightarrow>
             (Inr (length evs),
              db\<lparr>events := tbl1, stmts := stmts db @ [Connect] @ sent @ [Release]\<rparr>)
         | (None, sent) \<Rightarrow>
             fallbackInsert (chunk_fails f) evs
               (db\<lparr>stmts := stmts db @ [Connect] @ sent @ [Rollback, Release]\<rparr>)))"

subsection \<open>worker.ts\<close>

definition processBatch ::
  "faults \<Rightarrow> bool \<Rightarrow> event list \<Rightarrow> string option \<Rightarrow> database \<Rightarrow> (db_error + unit) \<times> database" where
  "processBatch f save_fails evs nextCursor db =
     (if length evs = 0 then (Inr (), db)
      else
        (case bulkInsertEvents f evs db of
           (Inl err, db1) \<Rightarrow> (Inl err, db1)
         | (Inr n, db1) \<Rightarrow> saveProgress save_fails nextCursor (int (length evs)) db1))"

section \<open>The fetcher (api.ts)\<close>

subsection \<open>Numbers and the clock\<close>

text \<open>
  The throttle computes with JavaScript numbers that hold milliseconds. \<open>NaN\<close> is kept
  apart, since \<open>Number(...)\<close> of a header that is not numeric is \<open>NaN\<close>, arithmetic
  with \<open>NaN\<close> is \<open>NaN\<close> and every comparison with it is false.
\<close>

datatype js_num = NaN | Num int

fun js_add :: "js_num \<Rightarrow> js_num \<Rightarrow> js_num" where
  "js_add (Num a) (Num b) = Num (a + b)"
| "js_add _ _ = NaN"

fun js_sub :: "js_num \<Rightarrow> js_num \<Rightarrow> js_num" where
  "js_sub (Num a) (Num b) = Num (a - b)"
| "js_sub _ _ = NaN"

fun js_mul :: "js_num \<Rightarrow> js_num \<Rightarrow> js_num" where
  "js_mul (Num a) (Num b) = Num (a * b)"
| "js_mul _ _ = NaN"

fun js_lt :: "js_num \<Rightarrow> js_num \<Rightarrow> bool" where
  "js_lt (Num a) (Num b) = (a < b)"
| "js_lt _ _ = False"

text \<open>
  The module's state: \<open>lastRequestTime\<close>, and with it the clock that \<open>Date.now()\<close>
  reads, the requests \<open>throttledRequest\<close> has sent so far (start time and \<open>cursor\<close>
  parameter), the number of requests axios has sent on its own to follow redirects, and
  the waits of the gateway/network branch so far.
\<close>

record api_state =
  clock :: int
  lastRequestTime :: js_num
  requests :: "(int \<times> string option) list"
  followed :: nat
  backoffs :: "int list"

text \<open>
  \<open>setTimeout(r, ms)\<close>: a delay that is \<open>NaN\<close>, less than 1 or more than
  2147483647 is set to 1. \<open>sleep(ms)\<close> resolves \<open>over\<close> milliseconds after that delay
  has passed.
\<close>

definition TIMEOUT_MAX :: int where
  "TIMEOUT_MAX = 2147483647"

definition timer_delay :: "js_num \<Rightarrow> int" where
  "timer_delay ms =
     (case ms of NaN \<Rightarrow> 1 | Num d \<Rightarrow> if d < 1 \<or> TIMEOUT_MAX < d then 1 else d)"

definition sleep :: "js_num \<Rightarrow> nat \<Rightarrow> api_state \<Rightarrow> api_state" where
  "sleep ms over st = st\<lparr>clock := clock st + timer_delay ms + int over\<rparr>"

subsection \<open>What the server and the network do\<close>

record response_body =
  b_data :: "event list option"
  b_events :: "event list option"
  b_nextCursor :: "string option"
  b_next_cursor :: "string option"
  p_nextCursor :: "string option"
  p_next_cursor :: "string option"
  b_hasMore :: "bool option"
  b_has_more :: "bool option"
  p_hasMore :: "bool option"
  p_has_more :: "bool option"

text \<open>
  A response: its status, whether it has a \<open>Location\<close> header, \<open>Number(...)\<close> of its
  \<open>retry-after\<close> header when it has one, and its body (\<open>None\<close> when \<open>res.data\<close> is
  \<open>null\<close>).

  An attempt of the loop meets \<open>answers\<close>: what the server answers to the request and
  then to each request that follows a redirect, in order; when they run out there is no
  response (network failure, timeout). \<open>max_redirects\<close> is the number of redirects the
  axios in use follows at most: the code leaves \<open>maxRedirects\<close> at the default of the
  library. The promise of \<open>api.get\<close> settles \<open>latency\<close> milliseconds after the request;
  \<open>pre\<close> milliseconds pass before the throttle reads the clock, and \<open>over_throttle\<close> and
  \<open>over_wait\<close> are the overshoots of the throttle's sleep and of the sleep in the
  \<open>catch\<close> block.
\<close>

record response =
  status :: nat
  location :: bool
  retry_after :: "js_num option"
  body :: "response_body option"

record attempt =
  pre :: nat
  over_throttle :: nat
  latency :: nat
  answers :: "response list"
  max_redirects :: nat
  over_wait :: nat

text \<open>
  axios follows a 3xx that has a \<open>Location\<close> header with a request of its own, up to
  \<open>n\<close> times; one redirect more is an error with no response. \<open>follow\<close> gives the
  response the promise settles with, if any, and the number of requests sent to follow
  redirects; \<open>outcome\<close> is that response.
\<close>

definition is_redirect :: "response \<Rightarrow> bool" where
  "is_redirect r = (300 \<le> status r \<and> status r < 400 \<and> location r)"

fun follow :: "nat \<Rightarrow> response list \<Rightarrow> response option \<times> nat" where
  "follow n [] = (None, 0)"
| "follow n (r # rs) =
     (if is_redirect r
      then (if n = 0 then (None, 0)
            else (case follow (n - 1) rs of (res, k) \<Rightarrow> (res, Suc k)))
      else (Some r, 0))"

definition outcome :: "attempt \<Rightarrow> response option" where
  "outcome a = fst (follow (max_redirects a) (answers a))"

record EventsResponse =
  data :: "event list"
  hasMore :: bool
  nextCursor :: "string option"

text \<open>
  \<open>throw new Error(`BAD_CURSOR:${cursor}`)\<close> and \<open>throw err\<close>; \<open>err.response\<close> is
  \<open>None\<close> when there was no response.
\<close>

datatype fetch_error = BAD_CURSOR "string option" | AxiosError "response option"

datatype fetch_result = Returned EventsResponse | Threw fetch_error | Pending

subsection \<open>throttledRequest\<close>

text \<open>\<open>if (cursor) params.cursor = cursor\<close>: the empty string is not sent.\<close>

definition cursor_param :: "string option \<Rightarrow> string option" where
  "cursor_param cursor =
     (case cursor of None \<Rightarrow> None | Some c \<Rightarrow> if c = [] then None else Some c)"

text \<open>
  The state when the promise of \<open>api.get\<close> settles. \<open>limit\<close> goes into the request as
  it is and is left out. The requests that follow redirects are sent by axios, past the
  throttle.
\<close>

definition throttledRequest :: "int \<Rightarrow> string option \<Rightarrow> attempt \<Rightarrow> api_state \<Rightarrow> api_state" where
  "throttledRequest MIN_DELAY_MS cursor a st =
     (let st0 = st\<lparr>clock := clock st + int (pre a)\<rparr>;
          now = clock st0;
          gap = js_sub (Num now) (lastRequestTime st0);
          st1 = (if js_lt gap (Num MIN_DELAY_MS)
                 then sleep (js_sub (Num MIN_DELAY_MS) gap) (over_throttle a) st0
                 else st0);
          st2 = st1\<lparr>lastRequestTime := Num (clock st1)\<rparr>;
          st3 = st2\<lparr>requests := requests st2 @ [(clock st2, cursor_param cursor)],
                   followed := followed st2 + snd (follow (max_redirects a) (answers a))\<rparr>
      in st3\<lparr>clock := clock st3 + int (latency a)\<rparr>)"

subsection \<open>fetchEvents\<close>

text \<open>
  axios resolves on a status from 200 to 299 and rejects otherwise; the error carries
  the response, if there was one.
\<close>

definition api_get :: "response option \<Rightarrow> response option + response" where
  "api_get out =
     (case out of
        None \<Rightarrow> Inl None
      | Some r \<Rightarrow> if 200 \<le> status r \<and> status r < 300 then Inr r else Inl (Some r))"

definition parse_body :: "response_body \<Rightarrow> EventsResponse" where
  "parse_body b =
     (let data = nullish_default (nullish (b_data b) (b_events b)) [];
          nextCursor =
            nullish (b_nextCursor b)
              (nullish (b_next_cursor b) (nullish (p_nextCursor b) (p_next_cursor b)));
          hasMore =
            nullish_default
              (nullish (b_hasMore b)
                 (nullish (b_has_more b) (nullish (p_hasMore b) (p_has_more b))))
              (nextCursor \<noteq> None)
      in \<lparr>data = data, hasMore = hasMore, nextCursor = nextCursor\<rparr>)"

text \<open>
  The \<open>try\<close> block after the request: what it returns, or \<open>err.response\<close> of what it
  throws. When \<open>res.data\<close> is \<open>null\<close>, reading \<open>body.data\<close> throws a \<open>TypeError\<close>,
  which has no \<open>response\<close>.
\<close>

definition try_block :: "response option \<Rightarrow> response option + EventsResponse" where
  "try_block out =
     (case api_get out of
        Inl err \<Rightarrow> Inl err
      | Inr res \<Rightarrow> (case body res of None \<Rightarrow> Inl None | Some b \<Rightarrow> Inr (parse_body b)))"

text \<open>
  The \<open>catch\<close> block of one turn of the loop: \<open>continue\<close> with the retry counter and
  the state, or throw.
\<close>

datatype catch_result = Continue nat api_state | Throw fetch_error

definition catch_block ::
  "string option \<Rightarrow> nat \<Rightarrow> nat \<Rightarrow> response option \<Rightarrow> api_state \<Rightarrow> catch_result" where
  "catch_block cursor retries over err st =
     (if map_option status err = Some 429 then
        (let retryAfter = nullish_default (Option.bind err retry_after) (Num 10);
             st1 = sleep (js_mul retryAfter (Num 1000)) over st;
             st2 = st1\<lparr>lastRequestTime := js_add (Num (clock st1)) (js_mul retryAfter (Num 1000))\<rparr>
         in Continue retries st2)
      else if map_option status err = Some 400 then Throw (BAD_CURSOR cursor)
      else if map_option status err = Some 504 \<or> err = None then
        (let wait = min (1000 * 2 ^ retries) 16000;
             st1 = sleep (Num wait) over (st\<lparr>backoffs := backoffs st @ [wait]\<rparr>)
         in Continue (retries + 1) st1)
      else Throw (AxiosError err))"

text \<open>
  \<open>while (true)\<close> over the outcomes its attempts meet. When they are used up and the
  loop has neither returned nor thrown, the call is still going on: \<open>Pending\<close>. The
  warning about \<open>x-ratelimit-remaining\<close> only writes to the console and is left out.
\<close>

fun fetchEvents_loop ::
  "int \<Rightarrow> string option \<Rightarrow> nat \<Rightarrow> attempt list \<Rightarrow> api_state \<Rightarrow> fetch_result \<times> api_state" where
  "fetchEvents_loop MIN_DELAY_MS cursor retries [] st = (Pending, st)"
| "fetchEvents_loop MIN_DELAY_MS cursor retries (a # as) st =
     (let st1 = throttledRequest MIN_DELAY_MS cursor a st
      in case try_block (outcome a) of
           Inr res \<Rightarrow> (Returned res, st1)
         | Inl err \<Rightarrow>
             (case catch_block cursor retries (over_wait a) err st1 of
                Continue retries1 st2 \<Rightarrow> fetchEvents_loop MIN_DELAY_MS cursor retries1 as st2
              | Throw e \<Rightarrow> (Threw e, st1)))"

definition fetchEvents ::
  "int \<Rightarrow> string option \<Rightarrow> attempt list \<Rightarrow> api_state \<Rightarrow> fetch_result \<times> api_state" where
  "fetchEvents MIN_DELAY_MS cursor as st = fetchEvents_loop MIN_DELAY_MS cursor 0 as st"

section \<open>The pipeline (index.ts)\<close>

subsection \<open>The state the two loops share\<close>

text \<open>
  \<open>fetcher()\<close> and \<open>writer()\<close> run as two coroutines on one thread. Between two of
  its suspension points a coroutine runs alone, and what one turn of a loop reads and
  writes of the shared variables it does in one such stretch: the fetcher after
  \<open>fetchEvents\<close> has settled, the writer after \<open>bulkInsertEvents\<close> has. So a run is a
  sequence of turns, each a whole turn of one of the two \<open>while\<close> loops, in any order.

  A loop is \<open>Running\<close>, \<open>Finished\<close> (it has left its \<open>while\<close>) or, for the fetcher,
  \<open>Blocked\<close> in a call of \<open>fetchEvents\<close> that has not settled. Of \<open>Stats\<close> only
  \<open>total\<close> is kept; the rest of it writes to the console.
\<close>

type_synonym batch = "event list \<times> string option"

datatype task = Running | Blocked | Finished

record pipeline =
  fetchQueue :: "string option list"
  writeQueue :: "batch list"
  allFetched :: bool
  lastCursor :: "string option"
  stats_total :: int
  fetcher :: task
  writer :: task
  pool :: database
  api :: api_state

text \<open>What a turn of the fetcher meets, and what a turn of the writer meets.\<close>

record fetch_env =
  attempts :: "attempt list"
  over_cooldown :: nat

record write_env =
  db_faults :: faults
  save_fails :: bool

datatype turn = FetcherTurn fetch_env | WriterTurn write_env

text \<open>\<open>a % b\<close> on integers: the sign of the result is the sign of \<open>a\<close>.\<close>

definition js_rem :: "int \<Rightarrow> int \<Rightarrow> int" where
  "js_rem a b = (if a < 0 then - ((- a) mod \<bar>b\<bar>) else a mod \<bar>b\<bar>)"

text \<open>\<open>res.hasMore && res.nextCursor\<close>: the empty string counts as no cursor.\<close>

definition truthy :: "string option \<Rightarrow> bool" where
  "truthy c = (case c of None \<Rightarrow> False | Some s \<Rightarrow> s \<noteq> [])"

subsection \<open>One turn of fetcher()\<close>

definition fetcher_turn :: "int \<Rightarrow> fetch_env \<Rightarrow> pipeline \<Rightarrow> pipeline" where
  "fetcher_turn MIN_DELAY_MS env s =
     (if fetcher s \<noteq> Running then s
      else
        (case fetchQueue s of
           [] \<Rightarrow> if allFetched s then s\<lparr>fetcher := Finished\<rparr> else s
         | cursor # queue \<Rightarrow>
             (case fetchEvents MIN_DELAY_MS cursor (attempts env) (api s) of
                (Pending, st) \<Rightarrow> s\<lparr>fetchQueue := queue, fetcher := Blocked, api := st\<rparr>
              | (Returned res, st) \<Rightarrow>
                  (let wq = (if length (data res) > 0
                             then writeQueue s @ [(data res, nextCursor res)]
                             else writeQueue s)
                   in if hasMore res \<and> truthy (nextCursor res)
                      then s\<lparr>fetchQueue := queue @ [nextCursor res], writeQueue := wq,
                             lastCursor := nextCursor res, api := st\<rparr>
                      else s\<lparr>fetchQueue := queue, writeQueue := wq, allFetched := True,
                             fetcher := Finished, api := st\<rparr>)
              | (Threw (BAD_CURSOR c), st) \<Rightarrow>
                  s\<lparr>fetchQueue := queue @ [None], lastCursor := None,
                    api := sleep (Num 5000) (over_cooldown env) st\<rparr>
              | (Threw (AxiosError err), st) \<Rightarrow>
                  s\<lparr>fetchQueue := (if cursor \<noteq> None then queue @ [cursor] else queue),
                    api := sleep (Num 3000) (over_cooldown env) st\<rparr>)))"

subsection \<open>One turn of writer()\<close>

definition writer_turn :: "write_env \<Rightarrow> pipeline \<Rightarrow> pipeline" where
  "writer_turn env s =
     (if writer s \<noteq> Running then s
      else
        (case writeQueue s of
           [] \<Rightarrow> if allFetched s then s\<lparr>writer := Finished\<rparr> else s
         | batch # queue \<Rightarrow>
             (case bulkInsertEvents (db_faults env) (fst batch) (pool s) of
                (Inr n, db1) \<Rightarrow>
                  (let total = stats_total s + int (length (fst batch));
                       db2 = (if js_rem total 5000 < int (length (fst batch))
                              then snd (saveProgress (save_fails env) (lastCursor s) 0 db1)
                              else db1)
                   in s\<lparr>writeQueue := queue, stats_total := total, pool := db2\<rparr>)
              | (Inl err, db1) \<Rightarrow> s\<lparr>writeQueue := batch # queue, pool := db1\<rparr>)))"

subsection \<open>runIngestion\<close>

fun run_turns :: "int \<Rightarrow> turn list \<Rightarrow> pipeline \<Rightarrow> pipeline" where
  "run_turns MIN_DELAY_MS [] s = s"
| "run_turns MIN_DELAY_MS (FetcherTurn env # ts) s =
     run_turns MIN_DELAY_MS ts (fetcher_turn MIN_DELAY_MS env s)"
| "run_turns MIN_DELAY_MS (WriterTurn env # ts) s =
     run_turns MIN_DELAY_MS ts (writer_turn env s)"

text \<open>
  Which of the queries of \<open>runIngestion\<close> itself the server rejects. \<open>process.exit\<close> is
  the \<open>Exit\<close> of the result; \<open>NoExit\<close> is a process whose loops have not both finished
  within the turns given.
\<close>

record run_env =
  initDb_fails :: bool
  getTotalProcessed_fails :: bool
  getCursor_fails :: bool
  final_save_fails :: bool
  count_fails :: bool

datatype exit = Exit nat | NoExit

definition start :: "database \<Rightarrow> api_state \<Rightarrow> pipeline" where
  "start db1 st =
     (let existing = getTotalProcessed db1;
          resumeCursor = getCursor db1
      in \<lparr>fetchQueue = [resumeCursor], writeQueue = [], allFetched = False,
          lastCursor = resumeCursor, stats_total = existing, fetcher = Running,
          writer = Running, pool = db1, api = st\<rparr>)"

definition runIngestion ::
  "int \<Rightarrow> run_env \<Rightarrow> turn list \<Rightarrow> database \<Rightarrow> api_state \<Rightarrow> exit \<times> database" where
  "runIngestion MIN_DELAY_MS env ts db0 st =
     (if initDb_fails env then (Exit 1, db0)
      else
        (let db1 = initDb db0
         in if getTotalProcessed_fails env \<or> getCursor_fails env then (Exit 1, db1)
            else
              (let s = run_turns MIN_DELAY_MS ts (start db1 st)
               in if fetcher s = Finished \<and> writer s = Finished
                  then
                    (let db2 = snd (saveProgress (final_save_fails env) (lastCursor s) 0 (pool s))
                     in if count_fails env then (Exit 1, db2) else (Exit 0, db2))
                  else (NoExit, pool s))))"

section \<open>Auxiliary definitions\<close>

text \<open>What \<open>escapeForCopy\<close> writes for one character.\<close>

definition esc_char :: "char \<Rightarrow> string" where
  "esc_char x =
     (if x = BACKSLASH then [BACKSLASH, BACKSLASH]
      else if x = LF then [BACKSLASH, CHR ''n'']
      else if x = CR then [BACKSLASH, CHR ''r'']
      else if x = TAB then [BACKSLASH, CHR ''t'']
      else [x])"

text \<open>Sample events, stores and failures, for the instances below.\<close>

definition DQ :: char where
  "DQ = CHR 0x22"

definition sample_event :: "string \<Rightarrow> event" where
  "sample_event i =
     \<lparr>eid = Some i, event_name = None, type' = Some ''page_view'', name' = None,
      user_id = None, userId = Some ''u1'',
      timestamp = Some (TsDate 2024 1 15 10 30 0 0), created_at = None, createdAt = None,
      json = ''{'' @ [DQ] @ ''id'' @ [DQ] @ '':'' @ [DQ] @ i @ [DQ] @ ''}''\<rparr>"

definition empty_db :: database where
  "empty_db = \<lparr>events = [], ingestion_state = None, stmts = []\<rparr>"

definition no_faults :: faults where
  "no_faults = \<lparr>connect_fails = False, stage_fails = None, chunk_fails = (\<lambda>i. False)\<rparr>"

definition db_with_b :: database where
  "db_with_b = \<lparr>events = [event_values (sample_event ''b'')], ingestion_state = Some (None, 0), stmts = []\<rparr>"

definition copy_fails :: faults where
  "copy_fails = \<lparr>connect_fails = False, stage_fails = Some CopyStaging, chunk_fails = (\<lambda>i. False)\<rparr>"

text \<open>
  When a request starts: the clock as \<open>throttledRequest\<close> reads it for
  \<open>lastRequestTime\<close>, after the throttle's sleep if there was one.
\<close>

definition start_time :: "int \<Rightarrow> attempt \<Rightarrow> api_state \<Rightarrow> int" where
  "start_time m a st =
     (let now = clock st + int (pre a)
      in case lastRequestTime st of
           NaN \<Rightarrow> now
         | Num l \<Rightarrow>
             if now - l < m
             then now + timer_delay (Num (m - (now - l))) + int (over_throttle a)
             else now)"

text \<open>
  The attempts by the branch of the \<open>catch\<close> block they take: the gateway/network
  branch (a 504, or an error without a response), and any branch that ends in
  \<open>continue\<close> (also a 429).
\<close>

definition transient :: "attempt \<Rightarrow> bool" where
  "transient a =
     (case try_block (outcome a) of
        Inl None \<Rightarrow> True
      | Inl (Some r) \<Rightarrow> status r = 504
      | Inr res \<Rightarrow> False)"

definition retryable :: "attempt \<Rightarrow> bool" where
  "retryable a =
     (case try_block (outcome a) of
        Inl None \<Rightarrow> True
      | Inl (Some r) \<Rightarrow> status r = 429 \<or> status r = 504
      | Inr res \<Rightarrow> False)"

text \<open>The wait before the retry that follows the failure number \<open>k + 1\<close> of that branch.\<close>

definition backoff :: "nat \<Rightarrow> int" where
  "backoff k = min (1000 * 2 ^ k) 16000"

text \<open>
  The retry counter and the state with which the loop goes on after an attempt that
  ends in \<open>continue\<close>.
\<close>

definition continue_with ::
  "int \<Rightarrow> string option \<Rightarrow> nat \<Rightarrow> attempt \<Rightarrow> api_state \<Rightarrow> nat \<times> api_state" where
  "continue_with m c r a st =
     (case try_block (outcome a) of
        Inr res \<Rightarrow> (r, st)
      | Inl err \<Rightarrow>
          (case catch_block c r (over_wait a) err (throttledRequest m c a st) of
             Continue r1 st1 \<Rightarrow> (r1, st1)
           | Throw e \<Rightarrow> (r, st)))"

text \<open>
  Start times that are at least \<open>m\<close> apart; a 429 whose \<open>retry-after\<close> (10 if absent) is
  a number that is not negative and, with \<open>m\<close>, within the range of a timer; and the
  invariant of the throttle: the requests so far are spaced, and \<open>lastRequestTime\<close> is
  a number not before the last of them and not further ahead of the clock than a timer
  can wait.
\<close>

fun spaced :: "int \<Rightarrow> int list \<Rightarrow> bool" where
  "spaced m [] = True"
| "spaced m [t] = True"
| "spaced m (t # u # ts) = (t + m \<le> u \<and> spaced m (u # ts))"

definition sane_retry_after :: "int \<Rightarrow> attempt \<Rightarrow> bool" where
  "sane_retry_after m a =
     (map_option status (outcome a) = Some 429 \<longrightarrow>
        (case nullish_default (Option.bind (outcome a) retry_after) (Num 10) of
           NaN \<Rightarrow> False
         | Num n \<Rightarrow> 0 \<le> n \<and> m + n * 1000 \<le> TIMEOUT_MAX))"

definition paced :: "int \<Rightarrow> api_state \<Rightarrow> bool" where
  "paced m st =
     (m \<le> TIMEOUT_MAX \<and> spaced m (map fst (requests st)) \<and>
      (\<exists>l. lastRequestTime st = Num l \<and>
           (requests st \<noteq> [] \<longrightarrow> fst (last (requests st)) \<le> l) \<and>
           l + m \<le> clock st + TIMEOUT_MAX))"

fun is_writer_turn :: "turn \<Rightarrow> bool" where
  "is_writer_turn (WriterTurn env) = True"
| "is_writer_turn (FetcherTurn env) = False"

text \<open>Sample states, responses and turns, for the instances below.\<close>

definition api0 :: api_state where
  "api0 =
     \<lparr>clock = 1000000, lastRequestTime = Num 0, requests = [], followed = 0, backoffs = []\<rparr>"

definition page :: "event list \<Rightarrow> bool \<Rightarrow> string option \<Rightarrow> response_body" where
  "page evs has_next next =
     \<lparr>b_data = Some evs, b_events = None, b_nextCursor = next, b_next_cursor = None,
      p_nextCursor = None, p_next_cursor = None, b_hasMore = Some has_next, b_has_more = None,
      p_hasMore = None, p_has_more = None\<rparr>"

definition answer :: "nat \<Rightarrow> js_num option \<Rightarrow> response_body \<Rightarrow> response" where
  "answer s ra b = \<lparr>status = s, location = False, retry_after = ra, body = Some b\<rparr>"

definition reply :: "nat \<Rightarrow> js_num option \<Rightarrow> response_body \<Rightarrow> attempt" where
  "reply s ra b =
     \<lparr>pre = 0, over_throttle = 0, latency = 100, answers = [answer s ra b],
      max_redirects = 21, over_wait = 0\<rparr>"

definition last_page :: response_body where
  "last_page = page [sample_event ''a'', sample_event ''b'', sample_event ''c''] False None"

definition db_at_c1 :: database where
  "db_at_c1 = \<lparr>events = [], ingestion_state = Some (Some ''c1'', 0), stmts = []\<rparr>"

definition quiet :: run_env where
  "quiet = \<lparr>initDb_fails = False, getTotalProcessed_fails = False, getCursor_fails = False,
            final_save_fails = False, count_fails = False\<rparr>"

definition fetch_of :: "attempt list \<Rightarrow> turn" where
  "fetch_of as = FetcherTurn \<lparr>attempts = as, over_cooldown = 0\<rparr>"

definition write_ok :: turn where
  "write_ok = WriterTurn \<lparr>db_faults = no_faults, save_fails = False\<rparr>"

text \<open>A turn all of whose 429s have such a \<open>retry-after\<close>.\<close>

fun sane_turn :: "int \<Rightarrow> turn \<Rightarrow> bool" where
  "sane_turn m (FetcherTurn env) = (\<forall>a \<in> set (attempts env). sane_retry_after m a)"
| "sane_turn m (WriterTurn env) = True"

section \<open>Properties of the store\<close>

subsection \<open>Escaping and the COPY text format\<close>

text \<open>
  The four replacements of \<open>escapeForCopy\<close> act on one character at a time, since none
  of the later ones matches what an earlier one has written.
\<close>

lemma replace_all_Nil: "replace_all c s [] = []"
  by (simp add: replace_all_def)

lemma replace_all_Cons: "replace_all c s (x # xs) = (if x = c then s else [x]) @ replace_all c s xs"
  by (simp add: replace_all_def)

lemma replace_all_append: "replace_all c s (xs @ ys) = replace_all c s xs @ replace_all c s ys"
  by (simp add: replace_all_def)

lemma escapeForCopy_Nil: "escapeForCopy [] = []"
  by (simp add: escapeForCopy_def replace_all_Nil)

lemma escapeForCopy_Cons: "escapeForCopy (x # xs) = esc_char x @ escapeForCopy xs"
  by (simp add: escapeForCopy_def replace_all_Cons replace_all_append replace_all_Nil esc_char_def
      BACKSLASH_def LF_def CR_def TAB_def)

lemma esc_char_safe: "c \<in> set (esc_char x) \<Longrightarrow> c \<noteq> TAB \<and> c \<noteq> LF"
  by (auto simp: esc_char_def BACKSLASH_def LF_def CR_def TAB_def split: if_splits)

lemma escapeForCopy_safe: "c \<in> set (escapeForCopy s) \<Longrightarrow> c \<noteq> TAB \<and> c \<noteq> LF"
  by (induction s) (auto simp: escapeForCopy_Nil escapeForCopy_Cons dest: esc_char_safe)

lemma copy_unescape_plain: "c \<noteq> BACKSLASH \<Longrightarrow> copy_unescape (c # cs) = c # copy_unescape cs"
  by (cases cs) auto

text \<open>What the server reads back from an escaped column is the column.\<close>

lemma copy_unescape_escapeForCopy: "copy_unescape (escapeForCopy s) = s"
proof (induction s)
  case Nil
  show ?case by (simp add: escapeForCopy_Nil)
next
  case (Cons x xs)
  show ?case
  proof (cases "x = BACKSLASH \<or> x = LF \<or> x = CR \<or> x = TAB")
    case True
    then show ?thesis using Cons
      by (auto simp: escapeForCopy_Cons esc_char_def unescape_char_def BACKSLASH_def LF_def CR_def TAB_def)
  next
    case False
    then have "esc_char x = [x]" by (simp add: esc_char_def)
    with False Cons show ?thesis
      by (simp add: escapeForCopy_Cons copy_unescape_plain)
  qed
qed

lemma copy_unescape_id: "BACKSLASH \<notin> set s \<Longrightarrow> copy_unescape s = s"
  by (induction s) (auto simp: copy_unescape_plain)

text \<open>A timestamp as \<open>toISOString\<close> writes it needs no escaping.\<close>

lemma digit_in: "digit n \<in> set ''0123456789''"
  unfolding digit_def by (rule nth_mem) simp

lemma digit_safe: "digit n \<noteq> TAB \<and> digit n \<noteq> LF \<and> digit n \<noteq> BACKSLASH"
  using digit_in [of n] by (auto simp: TAB_def LF_def BACKSLASH_def)

lemma toISOString_safe:
  "c \<in> set (toISOString y mo d h mi s ms) \<Longrightarrow> c \<noteq> TAB \<and> c \<noteq> LF \<and> c \<noteq> BACKSLASH"
  using digit_safe
  by (auto simp: toISOString_def iso_year_def pad2_def pad3_def pad4_def pad6_def
      TAB_def LF_def BACKSLASH_def split: if_splits)

lemma normalizeTimestamp_safe:
  "c \<in> set (normalizeTimestamp ts) \<Longrightarrow> c \<noteq> TAB \<and> c \<noteq> LF \<and> c \<noteq> BACKSLASH"
  by (auto simp: normalizeTimestamp_def epoch_zero_def dest: toISOString_safe
      split: option.splits ts_value.splits)

subsection \<open>The staged rows are the rows of the fallback\<close>

lemma split_on_none: "c \<notin> set a \<Longrightarrow> split_on c a = [a]"
  by (induction a) auto

lemma split_on_first: "c \<notin> set a \<Longrightarrow> split_on c (a @ c # rest) = a # split_on c rest"
  by (induction a) auto

lemma copy_line_copy_row: "copy_line (copy_row e) = Some (event_values e)"
proof -
  have esc: "\<And>s. TAB \<notin> set (escapeForCopy s)"
    using escapeForCopy_safe by blast
  have ts: "\<And>t. TAB \<notin> set (normalizeTimestamp t)" "\<And>t. BACKSLASH \<notin> set (normalizeTimestamp t)"
    using normalizeTimestamp_safe by blast+
  show ?thesis
    by (simp add: copy_line_def copy_row_def Let_def split_on_first split_on_none esc ts
        copy_unescape_escapeForCopy copy_unescape_id event_values_def)
qed

lemma copy_row_no_LF: "LF \<notin> set (copy_row e)"
  using escapeForCopy_safe normalizeTimestamp_safe
  by (auto simp: copy_row_def Let_def TAB_def LF_def)

lemma split_join_LF:
  "rows \<noteq> [] \<Longrightarrow> \<forall>r \<in> set rows. LF \<notin> set r \<Longrightarrow> split_on LF (join [LF] rows @ [LF]) = rows @ [[]]"
proof (induction rows)
  case Nil then show ?case by simp
next
  case (Cons r rs)
  show ?case
  proof (cases rs)
    case Nil
    with Cons.prems show ?thesis using split_on_first [of LF r "[]"] by simp
  next
    case (Cons r' rs')
    with Cons.prems Cons.IH show ?thesis
      using split_on_first [of LF r "join [LF] (r' # rs') @ [LF]"] by simp
  qed
qed

lemma copy_lines_rows: "copy_lines (map copy_row evs) = Some (map event_values evs)"
  by (induction evs) (auto simp: copy_line_copy_row)

lemma copy_from_stdin_rows:
  "evs \<noteq> [] \<Longrightarrow> copy_from_stdin (join [LF] (map copy_row evs) @ [LF]) = Some (map event_values evs)"
  using split_join_LF [of "map copy_row evs"] copy_row_no_LF
  by (auto simp: copy_from_stdin_def copy_lines_rows)

text \<open>
  Without a failing statement the transaction commits, and what it merges into the
  table are the values of the events.
\<close>

lemma primary_path_ok:
  "evs \<noteq> [] \<Longrightarrow> primary_path None evs tbl =
     (Some (insert_do_nothing (map event_values evs) tbl),
      [Begin, CreateStaging, CopyStaging, MergeStaging, Commit])"
  by (simp add: primary_path_def Let_def copy_from_stdin_rows)

lemma primary_path_commit:
  assumes "primary_path fl evs tbl = (Some t, sent)" "evs \<noteq> []"
  shows "t = insert_do_nothing (map event_values evs) tbl"
  using assms
  by (auto simp: primary_path_def Let_def copy_from_stdin_rows split: if_splits option.splits)

subsection \<open>Insert, skipping on conflict\<close>

lemma insert_do_nothing_append:
  "insert_do_nothing (rs @ rs') tbl = insert_do_nothing rs' (insert_do_nothing rs tbl)"
  by (induction rs arbitrary: tbl) auto

lemma insert_do_nothing_present:
  "row_id ` set rs \<subseteq> row_id ` set tbl \<Longrightarrow> insert_do_nothing rs tbl = tbl"
  by (induction rs arbitrary: tbl) auto

lemma insert_do_nothing_ids:
  "row_id ` set (insert_do_nothing rs tbl) = row_id ` set rs \<union> row_id ` set tbl"
  by (induction rs arbitrary: tbl) auto

lemma insert_do_nothing_distinct:
  "distinct (map row_id tbl) \<Longrightarrow> distinct (map row_id (insert_do_nothing rs tbl))"
  by (induction rs arbitrary: tbl) auto

lemma insert_do_nothing_prefix:
  "\<exists>new. insert_do_nothing rs tbl = tbl @ new \<and> set new \<subseteq> set rs \<and> row_id ` set new \<inter> row_id ` set tbl = {}"
proof (induction rs arbitrary: tbl)
  case Nil show ?case by simp
next
  case (Cons r rs)
  show ?case
  proof (cases "row_id r \<in> row_id ` set tbl")
    case True
    with Cons [of tbl] show ?thesis by auto
  next
    case False
    from Cons [of "tbl @ [r]"] obtain new where
      "insert_do_nothing rs (tbl @ [r]) = (tbl @ [r]) @ new" "set new \<subseteq> set rs"
      "row_id ` set new \<inter> row_id ` set (tbl @ [r]) = {}" by blast
    with False show ?thesis by (intro exI [of _ "r # new"]) auto
  qed
qed

lemma insert_do_nothing_new:
  "\<exists>new. insert_do_nothing rs tbl = tbl @ new \<and> set new \<subseteq> set rs \<and>
         row_id ` set new = row_id ` set rs - row_id ` set tbl"
proof -
  from insert_do_nothing_prefix [of rs tbl] obtain new where
    n: "insert_do_nothing rs tbl = tbl @ new" "set new \<subseteq> set rs"
       "row_id ` set new \<inter> row_id ` set tbl = {}" by blast
  have "row_id ` set tbl \<union> row_id ` set new = row_id ` set rs \<union> row_id ` set tbl"
    using insert_do_nothing_ids [of rs tbl] n(1) by (simp add: image_Un)
  with n(3) have "row_id ` set new = row_id ` set rs - row_id ` set tbl" by blast
  with n show ?thesis by blast
qed

subsection \<open>The loop of fallbackInsert\<close>

lemma fallback_loop_step:
  "i < length evs \<Longrightarrow> \<not> fails i \<Longrightarrow>
   fallback_loop fails evs i n db =
     fallback_loop fails evs (i + CHUNK) (n + length (take CHUNK (drop i evs)))
       ((db\<lparr>stmts := stmts db @ [InsertChunk i]\<rparr>)
          \<lparr>events := insert_do_nothing (map event_values (take CHUNK (drop i evs)))
                      (events (db\<lparr>stmts := stmts db @ [InsertChunk i]\<rparr>))\<rparr>)"
  by (subst fallback_loop.simps) (simp add: Let_def)

lemma fallback_loop_stop:
  "\<not> i < length evs \<Longrightarrow> fallback_loop fails evs i n db = (Inr n, db)"
  by (subst fallback_loop.simps) simp

lemma fallback_loop_fail:
  "i < length evs \<Longrightarrow> fails i \<Longrightarrow>
   fallback_loop fails evs i n db =
     (Inl (QueryFailed (InsertChunk i)), db\<lparr>stmts := stmts db @ [InsertChunk i]\<rparr>)"
  by (subst fallback_loop.simps) (simp add: Let_def)

lemma drop_chunk:
  "map event_values (drop i evs) =
     map event_values (take CHUNK (drop i evs)) @ map event_values (drop (i + CHUNK) evs)"
  by (metis append_take_drop_id drop_drop map_append add.commute)

lemma fallback_loop_events:
  "(\<forall>j. \<not> fails j) \<Longrightarrow>
   fst (fallback_loop fails evs i n db) = Inr (n + (length evs - i)) \<and>
   events (snd (fallback_loop fails evs i n db)) =
     insert_do_nothing (map event_values (drop i evs)) (events db) \<and>
   ingestion_state (snd (fallback_loop fails evs i n db)) = ingestion_state db"
proof (induction fails evs i n db rule: fallback_loop.induct)
  case (1 fails evs i inserted db)
  show ?case
  proof (cases "i < length evs")
    case False
    then show ?thesis by (subst (1 2 3) fallback_loop.simps) simp
  next
    case True
    have split: "map event_values (drop i evs) =
        map event_values (take CHUNK (drop i evs)) @ map event_values (drop (i + CHUNK) evs)"
      by (metis append_take_drop_id drop_drop map_append add.commute)
    have len: "length (take CHUNK (drop i evs)) + (length evs - (i + CHUNK)) = length evs - i"
      using True by (simp add: min_def)
    from True "1.prems" have nf: "\<not> fails i" by simp
    note IH = "1.IH" [OF True refl refl refl nf "1.prems"]
    show ?thesis
      apply (subst (1 2 3) fallback_loop.simps)
      using True nf IH len
      apply (simp add: Let_def split insert_do_nothing_append del: fallback_loop.simps)
      done
  qed
qed

lemma fallback_loop_result:
  "fst (fallback_loop fails evs i n db) = Inr m \<Longrightarrow>
     m = n + (length evs - i) \<and>
     events (snd (fallback_loop fails evs i n db)) =
       insert_do_nothing (map event_values (drop i evs)) (events db)"
proof (induction fails evs i n db rule: fallback_loop.induct)
  case (1 fails evs i inserted db)
  show ?case
  proof (cases "i < length evs")
    case False
    with "1.prems" show ?thesis by (simp add: fallback_loop_stop del: fallback_loop.simps)
  next
    case True
    have nf: "\<not> fails i"
      using "1.prems" True by (auto simp: fallback_loop_fail simp del: fallback_loop.simps)
    have len: "length (take CHUNK (drop i evs)) + (length evs - (i + CHUNK)) = length evs - i"
      using True by (simp add: min_def)
    note step = fallback_loop_step [of i evs fails inserted db, OF True nf]
    from "1.prems" have "fst (fallback_loop fails evs (i + CHUNK) (inserted + length (take CHUNK (drop i evs)))
       ((db\<lparr>stmts := stmts db @ [InsertChunk i]\<rparr>)
          \<lparr>events := insert_do_nothing (map event_values (take CHUNK (drop i evs)))
                      (events (db\<lparr>stmts := stmts db @ [InsertChunk i]\<rparr>))\<rparr>)) = Inr m"
      by (simp only: step)
    from "1.IH" [OF True refl refl refl nf this] len
    show ?thesis
      by (simp only: step) (simp add: drop_chunk [of i evs] insert_do_nothing_append)
  qed
qed

lemma fallback_loop_noop:
  "row_id ` set (map event_values evs) \<subseteq> row_id ` set (events db) \<Longrightarrow>
     events (snd (fallback_loop fails evs i n db)) = events db"
proof (induction fails evs i n db rule: fallback_loop.induct)
  case (1 fails evs i inserted db)
  show ?case
  proof (cases "i < length evs \<and> \<not> fails i")
    case False
    then show ?thesis
      by (cases "i < length evs") (simp_all add: fallback_loop_stop fallback_loop_fail del: fallback_loop.simps)
  next
    case True
    then have a: "i < length evs" and b: "\<not> fails i" by simp_all
    have sub: "row_id ` set (map event_values (take CHUNK (drop i evs))) \<subseteq> row_id ` set (events db)"
      using "1.prems" by (auto dest!: in_set_takeD in_set_dropD)
    have same: "insert_do_nothing (map event_values (take CHUNK (drop i evs))) (events db) = events db"
      by (rule insert_do_nothing_present [OF sub])
    note step = fallback_loop_step [of i evs fails inserted db, OF a b]
    have "events (snd (fallback_loop fails evs (i + CHUNK) (inserted + length (take CHUNK (drop i evs)))
       ((db\<lparr>stmts := stmts db @ [InsertChunk i]\<rparr>)
          \<lparr>events := insert_do_nothing (map event_values (take CHUNK (drop i evs)))
                      (events (db\<lparr>stmts := stmts db @ [InsertChunk i]\<rparr>))\<rparr>)))
        = events ((db\<lparr>stmts := stmts db @ [InsertChunk i]\<rparr>)
          \<lparr>events := insert_do_nothing (map event_values (take CHUNK (drop i evs)))
                      (events (db\<lparr>stmts := stmts db @ [InsertChunk i]\<rparr>))\<rparr>)"
      by (rule "1.IH" [OF a refl refl refl b]) (use "1.prems" same in simp)
    then show ?thesis by (simp only: step) (simp add: same)
  qed
qed

subsection \<open>bulkInsertEvents\<close>

lemma bulkInsertEvents_result:
  assumes "fst (bulkInsertEvents f evs db) = Inr n"
  shows "n = length evs \<and>
         events (snd (bulkInsertEvents f evs db)) = insert_do_nothing (map event_values evs) (events db)"
proof (cases "evs = []")
  case True
  with assms show ?thesis by (simp add: bulkInsertEvents_def)
next
  case False
  show ?thesis
  proof (cases "primary_path (stage_fails f) evs (events db)")
    case (Pair t sent)
    show ?thesis
    proof (cases t)
      case (Some tbl1)
      with Pair False assms primary_path_commit [of "stage_fails f" evs "events db" tbl1 sent]
      show ?thesis by (auto simp: bulkInsertEvents_def split: if_splits)
    next
      case None
      with Pair False assms
      show ?thesis
        using fallback_loop_result [of "chunk_fails f" evs 0 0
            "db\<lparr>stmts := stmts db @ [Connect] @ sent @ [Rollback, Release]\<rparr>" n]
        by (auto simp: bulkInsertEvents_def fallbackInsert_def split: if_splits)
    qed
  qed
qed

lemma bulkInsertEvents_noop:
  assumes "row_id ` set (map event_values evs) \<subseteq> row_id ` set (events db)"
  shows "events (snd (bulkInsertEvents f evs db)) = events db"
proof (cases "evs = [] \<or> connect_fails f")
  case True
  then show ?thesis by (auto simp: bulkInsertEvents_def)
next
  case False
  show ?thesis
  proof (cases "primary_path (stage_fails f) evs (events db)")
    case (Pair t sent)
    show ?thesis
    proof (cases t)
      case (Some tbl1)
      with Pair False primary_path_commit [of "stage_fails f" evs "events db" tbl1 sent]
        insert_do_nothing_present [OF assms]
      show ?thesis by (auto simp: bulkInsertEvents_def)
    next
      case None
      with Pair False
      show ?thesis
        using fallback_loop_noop [of evs
            "db\<lparr>stmts := stmts db @ [Connect] @ sent @ [Rollback, Release]\<rparr>" "chunk_fails f" 0 0] assms
        by (auto simp: bulkInsertEvents_def fallbackInsert_def)
    qed
  qed
qed

lemma sample_values:
  "event_values (sample_event i) =
     (i, ''page_view'', ''u1'', ''2024-01-15T10:30:00.000Z'', ''{'' @ [DQ] @ ''id'' @ [DQ] @ '':'' @ [DQ] @ i @ [DQ] @ ''}'')"
  by (simp add: event_values_def sample_event_def nullish_def nullish_default_def
      normalizeTimestamp_def toISOString_def iso_year_def pad2_def pad3_def pad4_def digit_def)

text \<open>
  Claim C6. For every batch and every state of the store: once \<open>bulkInsertEvents\<close> has
  returned for the batch, running it on the same batch again leaves the \<open>events\<close> table
  as it is, rows and row count, whichever path the second run takes and whatever fails
  in it.
\<close>

theorem insertBatch_idempotent:
  assumes "bulkInsertEvents f1 evs db = (Inr n, db1)"
  shows "events (snd (bulkInsertEvents f2 evs db1)) = events db1 \<and>
         length (events (snd (bulkInsertEvents f2 evs db1))) = length (events db1)"
proof -
  from assms have "fst (bulkInsertEvents f1 evs db) = Inr n" by simp
  from bulkInsertEvents_result [OF this] assms
  have "events db1 = insert_do_nothing (map event_values evs) (events db)" by simp
  then have "row_id ` set (map event_values evs) \<subseteq> row_id ` set (events db1)"
    by (simp add: insert_do_nothing_ids)
  from bulkInsertEvents_noop [OF this] show ?thesis by simp
qed

theorem insertBatch_idempotent_witness:
  "bulkInsertEvents no_faults [sample_event ''a'', sample_event ''b''] db_with_b =
     (Inr 2, snd (bulkInsertEvents no_faults [sample_event ''a'', sample_event ''b''] db_with_b)) \<and>
   events (snd (bulkInsertEvents copy_fails [sample_event ''a'', sample_event ''b'']
             (snd (bulkInsertEvents no_faults [sample_event ''a'', sample_event ''b''] db_with_b)))) =
     [event_values (sample_event ''b''), event_values (sample_event ''a'')]"
proof -
  have h: "bulkInsertEvents no_faults [sample_event ''a'', sample_event ''b''] db_with_b =
     (Inr 2, snd (bulkInsertEvents no_faults [sample_event ''a'', sample_event ''b''] db_with_b))"
    by (simp add: bulkInsertEvents_def primary_path_ok no_faults_def)
  have e: "events (snd (bulkInsertEvents no_faults [sample_event ''a'', sample_event ''b''] db_with_b)) =
     [event_values (sample_event ''b''), event_values (sample_event ''a'')]"
    by (simp add: bulkInsertEvents_def primary_path_ok no_faults_def db_with_b_def sample_values row_id_def)
  from insertBatch_idempotent [OF h, of copy_fails] h e show ?thesis by simp
qed

text \<open>
  Claim C7. For every non-empty batch and every state of the store, the staged bulk copy,
  when nothing fails in it, commits the very table that the chunked inserts of the
  fallback produce: the old rows, followed by rows of the batch for exactly the ids that
  were not there.
\<close>

theorem primary_and_fallback_agree:
  assumes "evs \<noteq> []" and "\<not> connect_fails f" and "stage_fails f = None"
  shows "bulkInsertEvents f evs db =
           (Inr (length evs),
            db\<lparr>events := events (snd (fallbackInsert (\<lambda>i. False) evs db)),
               stmts := stmts db @ [Connect, Begin, CreateStaging, CopyStaging, MergeStaging,
                                    Commit, Release]\<rparr>) \<and>
         fst (fallbackInsert (\<lambda>i. False) evs db) = Inr (length evs) \<and>
         (\<exists>new. events (snd (fallbackInsert (\<lambda>i. False) evs db)) = events db @ new \<and>
                set new \<subseteq> set (map event_values evs) \<and>
                row_id ` set new =
                  row_id ` set (map event_values evs) - row_id ` set (events db))"
proof -
  have fb: "fst (fallbackInsert (\<lambda>i. False) evs db) = Inr (length evs)"
       "events (snd (fallbackInsert (\<lambda>i. False) evs db)) =
          insert_do_nothing (map event_values evs) (events db)"
    using fallback_loop_events [of "\<lambda>i. False" evs 0 0 db] by (simp_all add: fallbackInsert_def)
  have "bulkInsertEvents f evs db =
           (Inr (length evs),
            db\<lparr>events := insert_do_nothing (map event_values evs) (events db),
               stmts := stmts db @ [Connect, Begin, CreateStaging, CopyStaging, MergeStaging,
                                    Commit, Release]\<rparr>)"
    using assms by (simp add: bulkInsertEvents_def primary_path_ok)
  with fb insert_do_nothing_new [of "map event_values evs" "events db"] show ?thesis
    by simp
qed

theorem primary_and_fallback_agree_witness:
  "bulkInsertEvents no_faults [sample_event ''a'', sample_event ''b''] db_with_b =
     (Inr 2,
      db_with_b\<lparr>events := events (snd (fallbackInsert (\<lambda>i. False) [sample_event ''a'', sample_event ''b''] db_with_b)),
         stmts := [Connect, Begin, CreateStaging, CopyStaging, MergeStaging, Commit, Release]\<rparr>)"
  using primary_and_fallback_agree [of "[sample_event ''a'', sample_event ''b'']" no_faults db_with_b]
  by (simp add: no_faults_def db_with_b_def)

text \<open>
  Claim C8. For every non-empty batch, when a statement of the transaction fails (the
  creation of the staging table, the COPY, the merge; also BEGIN and COMMIT), nothing of
  the transaction is committed, ROLLBACK is sent and the connection released, and the
  result of \<open>bulkInsertEvents\<close> is that of \<open>fallbackInsert\<close> on the same batch and the
  untouched \<open>events\<close> table.
\<close>

theorem primary_failure_rolls_back_then_falls_back:
  assumes "evs \<noteq> []" and "\<not> connect_fails f"
    and "stage_fails f = Some s" and "s \<in> {Begin, CreateStaging, CopyStaging, MergeStaging, Commit}"
  shows "fst (primary_path (Some s) evs (events db)) = None \<and>
         last (snd (primary_path (Some s) evs (events db))) = s \<and>
         bulkInsertEvents f evs db =
           fallbackInsert (chunk_fails f) evs
             (db\<lparr>stmts := stmts db @ [Connect] @ snd (primary_path (Some s) evs (events db))
                              @ [Rollback, Release]\<rparr>)"
proof -
  have "fst (primary_path (Some s) evs (events db)) = None \<and>
        last (snd (primary_path (Some s) evs (events db))) = s"
    using assms(1,4) by (auto simp: primary_path_def Let_def copy_from_stdin_rows)
  then show ?thesis
    using assms(1-3)
    by (cases "primary_path (Some s) evs (events db)") (simp add: bulkInsertEvents_def)
qed

theorem primary_failure_rolls_back_then_falls_back_witness:
  "bulkInsertEvents copy_fails [sample_event ''a'', sample_event ''b''] db_with_b =
     fallbackInsert (\<lambda>i. False) [sample_event ''a'', sample_event ''b'']
       (db_with_b\<lparr>stmts := [Connect, Begin, CreateStaging, CopyStaging, Rollback, Release]\<rparr>)"
  using primary_failure_rolls_back_then_falls_back
    [of "[sample_event ''a'', sample_event ''b'']" copy_fails CopyStaging db_with_b]
  by (simp add: copy_fails_def db_with_b_def primary_path_def)

text \<open>
  Claim C10. \<open>bulkInsertEvents\<close> returns 0 for the empty list and sends nothing to the
  server then (the store, with its list of statements, is unchanged whatever would have
  failed). Whenever it returns, by either path, it returns the length of the list, also
  when every id of the batch is in the table already and no row is inserted.
\<close>

theorem bulkInsertEvents_returns_length:
  "bulkInsertEvents f [] db = (Inr 0, db) \<and>
   (fst (bulkInsertEvents f evs db) = Inr n \<longrightarrow> n = length evs) \<and>
   (evs \<noteq> [] \<and> \<not> connect_fails f \<and> (\<forall>i. \<not> chunk_fails f i) \<and>
    row_id ` set (map event_values evs) \<subseteq> row_id ` set (events db) \<longrightarrow>
      fst (bulkInsertEvents f evs db) = Inr (length evs) \<and>
      events (snd (bulkInsertEvents f evs db)) = events db)"
proof (intro conjI impI)
  show "bulkInsertEvents f [] db = (Inr 0, db)" by (simp add: bulkInsertEvents_def)
next
  assume "fst (bulkInsertEvents f evs db) = Inr n"
  from bulkInsertEvents_result [OF this] show "n = length evs" by simp
next
  assume a: "evs \<noteq> [] \<and> \<not> connect_fails f \<and> (\<forall>i. \<not> chunk_fails f i) \<and>
    row_id ` set (map event_values evs) \<subseteq> row_id ` set (events db)"
  show "fst (bulkInsertEvents f evs db) = Inr (length evs)"
  proof (cases "primary_path (stage_fails f) evs (events db)")
    case (Pair t sent)
    show ?thesis
    proof (cases t)
      case None
      with Pair a show ?thesis
        using fallback_loop_events [of "chunk_fails f" evs 0 0
            "db\<lparr>stmts := stmts db @ [Connect] @ sent @ [Rollback, Release]\<rparr>"]
        by (simp add: bulkInsertEvents_def fallbackInsert_def)
    next
      case (Some tbl1)
      with Pair a show ?thesis by (simp add: bulkInsertEvents_def)
    qed
  qed
next
  assume a: "evs \<noteq> [] \<and> \<not> connect_fails f \<and> (\<forall>i. \<not> chunk_fails f i) \<and>
    row_id ` set (map event_values evs) \<subseteq> row_id ` set (events db)"
  then show "events (snd (bulkInsertEvents f evs db)) = events db"
    by (simp add: bulkInsertEvents_noop)
qed

theorem bulkInsertEvents_returns_length_witness:
  "fst (bulkInsertEvents copy_fails [sample_event ''b'', sample_event ''b''] db_with_b) = Inr 2 \<and>
   events (snd (bulkInsertEvents copy_fails [sample_event ''b'', sample_event ''b''] db_with_b)) =
     events db_with_b \<and> length (events db_with_b) = 1"
  using bulkInsertEvents_returns_length
    [of copy_fails db_with_b "[sample_event ''b'', sample_event ''b'']" 2]
  by (simp add: copy_fails_def db_with_b_def)

section \<open>Properties of the fetcher\<close>

subsection \<open>Timers and one request\<close>

lemma timer_delay_pos: "1 \<le> timer_delay ms"
  by (simp add: timer_delay_def TIMEOUT_MAX_def split: js_num.splits)

lemma timer_delay_in_range: "1 \<le> d \<Longrightarrow> d \<le> TIMEOUT_MAX \<Longrightarrow> timer_delay (Num d) = d"
  by (simp add: timer_delay_def)

lemma backoff_in_range: "timer_delay (Num (backoff k)) = backoff k"
proof (rule timer_delay_in_range)
  have "(1::int) \<le> 2 ^ k" by simp
  then have "(1::int) \<le> 1000 * 2 ^ k" by linarith
  then show "1 \<le> backoff k" by (simp add: backoff_def)
  show "backoff k \<le> TIMEOUT_MAX" by (simp add: backoff_def TIMEOUT_MAX_def)
qed

lemma throttledRequest_eq:
  "throttledRequest m c a st =
     st\<lparr>clock := start_time m a st + int (latency a),
        lastRequestTime := Num (start_time m a st),
        requests := requests st @ [(start_time m a st, cursor_param c)],
        followed := followed st + snd (follow (max_redirects a) (answers a))\<rparr>"
  by (cases "lastRequestTime st")
     (simp_all add: throttledRequest_def start_time_def Let_def sleep_def)

lemma start_time_ge: "clock st \<le> start_time m a st"
proof (cases "lastRequestTime st")
  case NaN
  then show ?thesis by (simp add: start_time_def Let_def)
next
  case (Num l)
  with timer_delay_pos [of "Num (m - (clock st + int (pre a) - l))"]
  show ?thesis by (simp add: start_time_def Let_def)
qed

text \<open>The response a promise settles with is never a redirect that axios follows.\<close>

lemma follow_not_redirect: "fst (follow n rs) = Some r \<Longrightarrow> \<not> is_redirect r"
  by (induction n rs rule: follow.induct) (auto split: if_splits prod.splits)

lemma outcome_not_redirect: "outcome a = Some r \<Longrightarrow> \<not> is_redirect r"
  unfolding outcome_def by (rule follow_not_redirect)

lemma answer_simps:
  "status (answer s ra b) = s" "location (answer s ra b) = False"
  "retry_after (answer s ra b) = ra" "body (answer s ra b) = Some b"
  by (simp_all add: answer_def)

lemma reply_simps:
  "pre (reply s ra b) = 0" "over_throttle (reply s ra b) = 0" "latency (reply s ra b) = 100"
  "over_wait (reply s ra b) = 0"
  "outcome (reply s ra b) = Some (answer s ra b)"
  "follow (max_redirects (reply s ra b)) (answers (reply s ra b)) = (Some (answer s ra b), 0)"
  by (simp_all add: reply_def outcome_def answer_def is_redirect_def)

lemma api0_simps:
  "clock api0 = 1000000" "lastRequestTime api0 = Num 0" "requests api0 = []"
  "followed api0 = 0" "backoffs api0 = []"
  by (simp_all add: api0_def)

lemma answer_try:
  "\<not> (200 \<le> s \<and> s < 300) \<Longrightarrow> try_block (Some (answer s ra b)) = Inl (Some (answer s ra b))"
  "200 \<le> s \<and> s < 300 \<Longrightarrow> try_block (Some (answer s ra b)) = Inr (parse_body b)"
  by (auto simp: try_block_def api_get_def answer_simps)

lemma reply_try:
  "\<not> (200 \<le> s \<and> s < 300) \<Longrightarrow> try_block (outcome (reply s ra b)) = Inl (Some (answer s ra b))"
  "200 \<le> s \<and> s < 300 \<Longrightarrow> try_block (outcome (reply s ra b)) = Inr (parse_body b)"
  by (simp_all add: reply_simps answer_try)

subsection \<open>The requests of a call\<close>

lemma catch_block_requests:
  "catch_block c r over err st = Continue r1 st1 \<Longrightarrow> requests st1 = requests st"
  by (auto simp: catch_block_def Let_def sleep_def split: if_splits)

lemma loop_requests_prefix:
  "\<exists>later. requests (snd (fetchEvents_loop m c r as st)) = requests st @ later"
proof (induction as arbitrary: r st)
  case Nil
  show ?case by simp
next
  case (Cons a as)
  show ?case
  proof (cases "try_block (outcome a)")
    case (Inr res)
    then show ?thesis by (simp add: throttledRequest_eq)
  next
    case (Inl err)
    show ?thesis
    proof (cases "catch_block c r (over_wait a) err (throttledRequest m c a st)")
      case (Throw e)
      with Inl show ?thesis by (simp add: throttledRequest_eq)
    next
      case (Continue r1 st1)
      from Cons.IH [of r1 st1] obtain later where
        "requests (snd (fetchEvents_loop m c r1 as st1)) = requests st1 @ later" by blast
      with Inl Continue catch_block_requests [OF Continue] show ?thesis
        by (simp add: throttledRequest_eq)
    qed
  qed
qed

lemma loop_first_request:
  "\<exists>later. requests (snd (fetchEvents_loop m c r (a # as) st)) =
     requests st @ (start_time m a st, cursor_param c) # later"
proof (cases "try_block (outcome a)")
  case (Inr res)
  then show ?thesis by (simp add: throttledRequest_eq)
next
  case (Inl err)
  show ?thesis
  proof (cases "catch_block c r (over_wait a) err (throttledRequest m c a st)")
    case (Throw e)
    with Inl show ?thesis by (simp add: throttledRequest_eq)
  next
    case (Continue r1 st1)
    from loop_requests_prefix [of m c r1 as st1] obtain later where
      "requests (snd (fetchEvents_loop m c r1 as st1)) = requests st1 @ later" by blast
    with Inl Continue catch_block_requests [OF Continue] show ?thesis
      by (simp add: throttledRequest_eq)
  qed
qed

subsection \<open>Attempts that end in continue\<close>

lemma retryable_try: "retryable a \<Longrightarrow> \<exists>err. try_block (outcome a) = Inl err"
  by (cases "try_block (outcome a)") (auto simp: retryable_def)

lemma try_block_Inl:
  "try_block out = Inl (Some r) \<Longrightarrow> out = Some r \<and> \<not> (200 \<le> status r \<and> status r < 300)"
  by (auto simp: try_block_def api_get_def split: option.splits if_splits sum.splits)

text \<open>
  What the gateway/network branch takes: a 504, no response (also after too many
  redirects), and a 2xx whose body is \<open>null\<close>. A 429 ends in \<open>continue\<close> as well.
\<close>

lemma transient_cases:
  "outcome a = None \<Longrightarrow> transient a"
  "outcome a = Some res \<Longrightarrow> status res = 504 \<Longrightarrow> transient a"
  "outcome a = Some res \<Longrightarrow> 200 \<le> status res \<and> status res < 300 \<Longrightarrow> body res = None \<Longrightarrow>
     transient a"
  by (auto simp: transient_def try_block_def api_get_def)

lemma retryable_cases:
  "transient a \<Longrightarrow> retryable a"
  "outcome a = Some res \<Longrightarrow> status res = 429 \<Longrightarrow> retryable a"
  by (auto simp: transient_def retryable_def try_block_def api_get_def
      split: sum.splits option.splits)

lemma too_many_redirects:
  "\<forall>r \<in> set rs. is_redirect r \<Longrightarrow> fst (follow n rs) = None"
  by (induction n rs rule: follow.induct) (auto split: prod.splits)

lemma continue_step:
  assumes "retryable a"
  shows "fetchEvents_loop m c r (a # as) st =
           fetchEvents_loop m c (fst (continue_with m c r a st)) as (snd (continue_with m c r a st))"
proof -
  from retryable_try [OF assms] obtain err where e: "try_block (outcome a) = Inl err" by blast
  with assms have "\<exists>r1 st1. catch_block c r (over_wait a) err (throttledRequest m c a st) = Continue r1 st1"
    by (cases err) (auto simp: retryable_def catch_block_def Let_def dest: try_block_Inl)
  then obtain r1 st1 where
    "catch_block c r (over_wait a) err (throttledRequest m c a st) = Continue r1 st1" by blast
  with e show ?thesis by (simp add: continue_with_def)
qed

lemma continue_transient:
  assumes "transient a"
  shows "continue_with m c r a st =
           (Suc r, sleep (Num (backoff r)) (over_wait a)
                     ((throttledRequest m c a st)
                        \<lparr>backoffs := backoffs (throttledRequest m c a st) @ [backoff r]\<rparr>))"
proof (cases "try_block (outcome a)")
  case (Inr res)
  with assms show ?thesis by (simp add: transient_def)
next
  case (Inl err)
  with assms have "map_option status err = Some 504 \<or> err = None"
    by (cases err) (auto simp: transient_def)
  with Inl show ?thesis
    by (auto simp: continue_with_def catch_block_def Let_def backoff_def)
qed

lemma continue_rate_limited:
  assumes "retryable a" and "\<not> transient a"
  shows "fst (continue_with m c r a st) = r \<and>
         backoffs (snd (continue_with m c r a st)) = backoffs st \<and>
         requests (snd (continue_with m c r a st)) =
           requests st @ [(start_time m a st, cursor_param c)]"
proof (cases "try_block (outcome a)")
  case (Inr res)
  with assms show ?thesis by (simp add: retryable_def)
next
  case (Inl err)
  with assms obtain res where "err = Some res" "status res = 429"
    by (cases err) (auto simp: retryable_def transient_def)
  with Inl show ?thesis
    by (simp add: continue_with_def catch_block_def Let_def sleep_def throttledRequest_eq)
qed

lemma continue_facts:
  assumes "retryable a"
  shows "fst (continue_with m c r a st) = (if transient a then Suc r else r)"
    and "backoffs (snd (continue_with m c r a st)) =
           backoffs st @ (if transient a then [backoff r] else [])"
    and "requests (snd (continue_with m c r a st)) =
           requests st @ [(start_time m a st, cursor_param c)]"
    and "transient a \<Longrightarrow>
           start_time m a st + int (latency a) + backoff r \<le> clock (snd (continue_with m c r a st))"
proof -
  show "fst (continue_with m c r a st) = (if transient a then Suc r else r)"
    using continue_rate_limited [OF assms, of m c r st] by (simp add: continue_transient)
  show "backoffs (snd (continue_with m c r a st)) =
           backoffs st @ (if transient a then [backoff r] else [])"
    using continue_rate_limited [OF assms, of m c r st]
    by (simp add: continue_transient sleep_def throttledRequest_eq)
  show "requests (snd (continue_with m c r a st)) =
           requests st @ [(start_time m a st, cursor_param c)]"
    using continue_rate_limited [OF assms, of m c r st]
    by (cases "transient a") (simp_all add: continue_transient sleep_def throttledRequest_eq)
  show "start_time m a st + int (latency a) + backoff r \<le> clock (snd (continue_with m c r a st))"
    if "transient a"
    using that backoff_in_range [of r]
    by (simp add: continue_transient sleep_def throttledRequest_eq)
qed


lemma loop_retryable_append:
  "\<forall>a \<in> set as. retryable a \<Longrightarrow>
   fetchEvents_loop m c r (as @ rest) st =
     fetchEvents_loop m c (r + length (filter transient as)) rest
       (snd (fetchEvents_loop m c r as st))"
proof (induction as arbitrary: r st)
  case Nil
  show ?case by simp
next
  case (Cons a as)
  then have t: "retryable a" and rest: "\<forall>a \<in> set as. retryable a" by simp_all
  show ?case
    using Cons.IH [OF rest, of "fst (continue_with m c r a st)" "snd (continue_with m c r a st)"]
      continue_step [OF t, of m c r] continue_facts(1) [OF t, of m c r st]
    by (simp del: fetchEvents_loop.simps)
qed







subsection \<open>Rate limiting\<close>

text \<open>
  At any attempt of a call, when a 429 has a \<open>retry-after\<close> of \<open>R\<close> seconds (10 if
  absent) and \<open>R * 1000\<close> is within the range of a timer, the next request of the call
  carries the same cursor and starts no earlier than \<open>R\<close> seconds after the 429 arrived,
  whatever \<open>MIN_DELAY_MS\<close> is.
\<close>

lemma rate_limited_wait_in_range:
  assumes "map_option status (outcome a) = Some 429"
    and "nullish_default (Option.bind (outcome a) retry_after) (Num 10) = Num R"
    and "R * 1000 \<le> TIMEOUT_MAX"
  shows "\<exists>t2 later.
           requests (snd (fetchEvents_loop m cursor r (a # b # rest) st)) =
             requests st @ (start_time m a st, cursor_param cursor)
               # (t2, cursor_param cursor) # later \<and>
           clock (throttledRequest m cursor a st) + R * 1000 \<le> t2"
proof -
  define st1 where "st1 = throttledRequest m cursor a st"
  define st2 where "st2 = sleep (Num (R * 1000)) (over_wait a) st1"
  define st3 where "st3 = st2\<lparr>lastRequestTime := Num (clock st2 + R * 1000)\<rparr>"
  from assms(1) obtain res where res: "outcome a = Some res" "status res = 429" by auto
  then have get: "try_block (outcome a) = Inl (outcome a)"
    by (simp add: try_block_def api_get_def)
  have cb: "catch_block cursor r (over_wait a) (outcome a) st1 = Continue r st3"
    using res assms(2) by (simp add: catch_block_def Let_def st2_def st3_def)
  have step: "fetchEvents_loop m cursor r (a # b # rest) st = fetchEvents_loop m cursor r (b # rest) st3"
    using get cb by (simp add: st1_def)
  from loop_first_request [of m cursor r b rest st3] obtain later where
    later: "requests (snd (fetchEvents_loop m cursor r (b # rest) st3)) =
       requests st3 @ (start_time m b st3, cursor_param cursor) # later" by blast
  have r3: "requests st3 = requests st @ [(start_time m a st, cursor_param cursor)]"
    by (simp add: st3_def st2_def st1_def sleep_def throttledRequest_eq)
  have "R * 1000 \<le> timer_delay (Num (R * 1000))"
    using assms(3) by (simp add: timer_delay_def)
  then have "clock st1 + R * 1000 \<le> clock st3"
    by (simp add: st3_def st2_def sleep_def)
  also have "\<dots> \<le> start_time m b st3" by (rule start_time_ge)
  finally have "clock (throttledRequest m cursor a st) + R * 1000 \<le> start_time m b st3"
    by (simp add: st1_def)
  with later r3 step show ?thesis by (simp del: fetchEvents_loop.simps)
qed

text \<open>
  Claim C4. After a 429 with \<open>retry-after = R\<close> the next request starts no earlier than
  \<open>R\<close> seconds after the response: this fails when \<open>R * 1000\<close> exceeds 2147483647.
  With \<open>retry-after: 2147484\<close> both \<open>sleep(retryAfter * 1000)\<close> and the sleep of the
  throttle are set to 1 ms, and the retry, with the same cursor, starts 2 ms after the
  429 arrived (at 1000100).
\<close>

theorem retry_after_beyond_timer_range:
  "requests (snd (fetchEvents 500 (Some ''c1'')
      [reply 429 (Some (Num 2147484)) last_page, reply 200 None last_page] api0)) =
     [(1000000, Some ''c1''), (1000102, Some ''c1'')] \<and>
   clock (throttledRequest 500 (Some ''c1'') (reply 429 (Some (Num 2147484)) last_page) api0) = 1000100"
  by (simp add: fetchEvents_def answer_try catch_block_def reply_simps answer_simps api0_simps
      throttledRequest_eq start_time_def cursor_param_def sleep_def nullish_default_def
      timer_delay_def TIMEOUT_MAX_def Let_def)

subsection \<open>The spacing of requests\<close>

text \<open>
  The throttle keeps two requests at least \<open>MIN_DELAY_MS\<close> apart as long as every 429 it
  meets has a \<open>retry-after\<close> that is a number, not negative and, with \<open>MIN_DELAY_MS\<close>,
  within the range of a timer.
\<close>

lemma spaced_snoc:
  "spaced m ts \<Longrightarrow> (ts \<noteq> [] \<longrightarrow> last ts + m \<le> u) \<Longrightarrow> spaced m (ts @ [u])"
  by (induction m ts rule: spaced.induct) auto

lemma start_time_spaced:
  assumes "lastRequestTime st = Num l" and "l + m \<le> clock st + TIMEOUT_MAX"
  shows "l + m \<le> start_time m a st"
proof (cases "clock st + int (pre a) - l < m")
  case False
  with assms(1) show ?thesis by (simp add: start_time_def Let_def)
next
  case True
  with assms(2) have "timer_delay (Num (m - (clock st + int (pre a) - l))) = m - (clock st + int (pre a) - l)"
    by (intro timer_delay_in_range) simp_all
  with True assms(1) show ?thesis by (simp add: start_time_def Let_def)
qed

lemma throttledRequest_paced:
  assumes "paced m st"
  shows "paced m (throttledRequest m c a st)"
proof -
  from assms obtain l where l: "lastRequestTime st = Num l"
    "requests st \<noteq> [] \<longrightarrow> fst (last (requests st)) \<le> l" "l + m \<le> clock st + TIMEOUT_MAX"
    and sp: "spaced m (map fst (requests st))" and m: "m \<le> TIMEOUT_MAX"
    by (auto simp: paced_def)
  have "l + m \<le> start_time m a st" by (rule start_time_spaced [OF l(1) l(3)])
  with l(2) have "map fst (requests st) \<noteq> [] \<longrightarrow> last (map fst (requests st)) + m \<le> start_time m a st"
    by (auto simp: last_map)
  from spaced_snoc [OF sp this] m show ?thesis
    by (simp add: paced_def throttledRequest_eq)
qed

lemma sleep_paced: "paced m st \<Longrightarrow> paced m (sleep d over st)"
  using timer_delay_pos [of d] by (auto simp: paced_def sleep_def)

lemma catch_block_paced:
  assumes "paced m st" and "sane_retry_after m a"
    and "requests st \<noteq> [] \<longrightarrow> fst (last (requests st)) \<le> clock st"
    and "catch_block c r over (outcome a) st = Continue r1 st1"
  shows "paced m st1"
proof (cases "map_option status (outcome a) = Some 429")
  case False
  with assms(4) have "st1 = sleep (Num (backoff r)) over (st\<lparr>backoffs := backoffs st @ [backoff r]\<rparr>)"
    by (auto simp: catch_block_def Let_def backoff_def split: if_splits)
  moreover from assms(1) have "paced m (st\<lparr>backoffs := backoffs st @ [backoff r]\<rparr>)"
    by (simp add: paced_def)
  ultimately show ?thesis by (simp add: sleep_paced)
next
  case True
  with assms(2) obtain n where
    n: "nullish_default (Option.bind (outcome a) retry_after) (Num 10) = Num n" "0 \<le> n"
       "m + n * 1000 \<le> TIMEOUT_MAX"
    by (auto simp: sane_retry_after_def split: js_num.splits)
  have "0 \<le> timer_delay (Num (n * 1000))"
    using timer_delay_pos [of "Num (n * 1000)"] by simp
  with True n assms(1,3,4) show ?thesis
    by (auto simp: catch_block_def Let_def paced_def sleep_def)
qed

lemma loop_paced:
  "paced m st \<Longrightarrow> \<forall>a \<in> set as. sane_retry_after m a \<Longrightarrow>
     paced m (snd (fetchEvents_loop m c r as st))"
proof (induction as arbitrary: r st)
  case Nil
  then show ?case by simp
next
  case (Cons a as)
  let ?st1 = "throttledRequest m c a st"
  have p1: "paced m ?st1" by (rule throttledRequest_paced [OF Cons.prems(1)])
  have c1: "requests ?st1 \<noteq> [] \<longrightarrow> fst (last (requests ?st1)) \<le> clock ?st1"
    by (simp add: throttledRequest_eq)
  show ?case
  proof (cases "try_block (outcome a)")
    case (Inr res)
    with p1 show ?thesis by simp
  next
    case (Inl err)
    show ?thesis
    proof (cases "catch_block c r (over_wait a) err ?st1")
      case (Throw e)
      with Inl p1 show ?thesis by simp
    next
      case (Continue r1 st2)
      have "paced m st2"
      proof (cases err)
        case None
        with Continue have "st2 = sleep (Num (backoff r)) (over_wait a)
            (?st1\<lparr>backoffs := backoffs ?st1 @ [backoff r]\<rparr>)"
          by (simp add: catch_block_def Let_def backoff_def)
        moreover from p1 have "paced m (?st1\<lparr>backoffs := backoffs ?st1 @ [backoff r]\<rparr>)"
          by (simp add: paced_def)
        ultimately show ?thesis by (simp add: sleep_paced)
      next
        case (Some res)
        with Inl have "err = outcome a" by (auto dest: try_block_Inl)
        with catch_block_paced [OF p1 _ c1, of a c r "over_wait a" r1 st2] Continue Cons.prems(2)
        show ?thesis by simp
      qed
      from Cons.IH [OF this, of r1] Cons.prems(2) Inl Continue show ?thesis by simp
    qed
  qed
qed

text \<open>
  Claim C5. The gap between two consecutive requests is at least \<open>MIN_DELAY_MS\<close>: this
  fails after a 429 whose \<open>retry-after\<close> is not a number (an HTTP date), since
  \<open>lastRequestTime\<close> becomes \<open>NaN\<close> and \<open>gap < MIN_DELAY_MS\<close> is false. With
  \<open>MIN_DELAY_MS = 500\<close> the retry starts 101 ms after the request before it.
\<close>

theorem throttle_gap_after_date_retry_after:
  "map fst (requests (snd (fetchEvents 500 None
      [reply 429 (Some NaN) last_page, reply 200 None last_page] api0))) = [1000000, 1000101]"
  by (simp add: fetchEvents_def answer_try catch_block_def reply_simps answer_simps api0_simps
      throttledRequest_eq start_time_def cursor_param_def sleep_def nullish_default_def
      timer_delay_def TIMEOUT_MAX_def Let_def)

section \<open>Properties of the pipeline\<close>

subsection \<open>How a call of fetchEvents ends\<close>

lemma loop_retryable_prefix:
  "\<forall>a \<in> set as. retryable a \<Longrightarrow>
   \<exists>r1 st1. fetchEvents_loop m c r (as @ rest) st = fetchEvents_loop m c r1 rest st1"
  using loop_retryable_append [of as m c r rest st] by blast

lemma fetchEvents_400:
  assumes "\<forall>x \<in> set as. retryable x" and "map_option status (outcome a) = Some 400"
  shows "fst (fetchEvents m c (as @ [a]) st) = Threw (BAD_CURSOR c)"
proof -
  from loop_retryable_prefix [OF assms(1), of m c 0 "[a]" st] obtain r1 st1 where
    "fetchEvents_loop m c 0 (as @ [a]) st = fetchEvents_loop m c r1 [a] st1" by blast
  moreover have "fst (fetchEvents_loop m c r1 [a] st1) = Threw (BAD_CURSOR c)"
    using assms(2) by (auto simp: try_block_def api_get_def catch_block_def)
  ultimately show ?thesis by (simp add: fetchEvents_def)
qed


subsection \<open>The fetch queue holds at most one cursor\<close>

lemma fetcher_turn_queue:
  "length (fetchQueue s) \<le> 1 \<Longrightarrow> length (fetchQueue (fetcher_turn m env s)) \<le> 1"
  by (auto simp: fetcher_turn_def Let_def
      split: list.splits prod.splits fetch_result.splits fetch_error.splits)

lemma writer_turn_fetch_side:
  "fetchQueue (writer_turn env s) = fetchQueue s \<and> fetcher (writer_turn env s) = fetcher s \<and>
   api (writer_turn env s) = api s \<and> lastCursor (writer_turn env s) = lastCursor s"
  by (auto simp: writer_turn_def Let_def split: list.splits prod.splits sum.splits)

lemma start_queue: "length (fetchQueue (start db0 st0)) \<le> 1"
  by (simp add: start_def Let_def)

lemma run_turns_queue:
  "length (fetchQueue s) \<le> 1 \<Longrightarrow> length (fetchQueue (run_turns m ts s)) \<le> 1"
proof (induction ts arbitrary: s)
  case Nil
  then show ?case by simp
next
  case (Cons t ts)
  show ?case
  proof (cases t)
    case (FetcherTurn env)
    from Cons.IH [OF fetcher_turn_queue [OF Cons.prems, of m env]] FetcherTurn
    show ?thesis by simp
  next
    case (WriterTurn env)
    from Cons.prems have "length (fetchQueue (writer_turn env s)) \<le> 1"
      by (simp add: writer_turn_fetch_side)
    from Cons.IH [OF this] WriterTurn show ?thesis by simp
  qed
qed

lemma run_writer_turns_fetch_side:
  "\<forall>t \<in> set ws. is_writer_turn t \<Longrightarrow>
   fetchQueue (run_turns m ws s) = fetchQueue s \<and> fetcher (run_turns m ws s) = fetcher s \<and>
   api (run_turns m ws s) = api s"
proof (induction ws arbitrary: s)
  case Nil
  show ?case by simp
next
  case (Cons t ws)
  then show ?case by (cases t) (simp_all add: writer_turn_fetch_side)
qed

lemma run_turns_append: "run_turns m (ts @ us) s = run_turns m us (run_turns m ts s)"
proof (induction ts arbitrary: s)
  case Nil
  show ?case by simp
next
  case (Cons t ts)
  then show ?case by (cases t) simp_all
qed

lemma fetcher_turn_first_request:
  assumes "fetcher s = Running" and "fetchQueue s = c # q" and "attempts env = b # bs"
  shows "\<exists>later. requests (api (fetcher_turn m env s)) =
           requests (api s) @ (start_time m b (api s), cursor_param c) # later"
proof -
  from loop_first_request [of m c 0 b bs "api s"] obtain later where
    l: "requests (snd (fetchEvents m c (attempts env) (api s))) =
          requests (api s) @ (start_time m b (api s), cursor_param c) # later"
    by (auto simp: fetchEvents_def assms(3))
  show ?thesis
  proof (cases "fetchEvents m c (attempts env) (api s)")
    case (Pair res st)
    with l assms(1,2) show ?thesis
      by (cases res)
         (auto simp: fetcher_turn_def Let_def sleep_def split: fetch_error.splits)
  qed
qed

subsection \<open>Stale cursors\<close>

text \<open>
  Claim C9. In every run, when a fetch ends in a 400 (after any number of 429s, 504s and
  network failures), \<open>fetchEvents\<close> throws \<open>BAD_CURSOR\<close> with the cursor it was called
  with, not the error of the response; the fetcher goes on, with \<open>lastCursor\<close> reset and
  the queue holding the request without cursor alone, and after the cooldown of five
  seconds the next request the pipeline sends, whatever the writer does in between, has
  no cursor.
\<close>

theorem stale_cursor_restarts_from_the_beginning:
  assumes "s = run_turns m ts (start db0 st0)"
    and "fetcher s = Running" and "fetchQueue s = cursor # queue"
    and "attempts env = as @ [a]" and "\<forall>x \<in> set as. retryable x"
    and "map_option status (outcome a) = Some 400"
    and "s1 = fetcher_turn m env s"
  shows "fst (fetchEvents m cursor (attempts env) (api s)) = Threw (BAD_CURSOR cursor) \<and>
         fetcher s1 = Running \<and> fetchQueue s1 = [None] \<and> lastCursor s1 = None \<and>
         pool s1 = pool s \<and>
         clock (snd (fetchEvents m cursor (attempts env) (api s))) + 5000 \<le> clock (api s1) \<and>
         (\<forall>ws env1 b bs. (\<forall>t \<in> set ws. is_writer_turn t) \<and> attempts env1 = b # bs \<longrightarrow>
            (\<exists>t later.
               requests (api (run_turns m (ws @ [FetcherTurn env1]) s1)) =
                 requests (api s1) @ (t, None) # later \<and> clock (api s1) \<le> t))"
proof -
  have q: "queue = []"
    using run_turns_queue [OF start_queue, of m ts db0 st0] assms(1,3) by simp
  have thrown: "fst (fetchEvents m cursor (attempts env) (api s)) = Threw (BAD_CURSOR cursor)"
    using fetchEvents_400 [OF assms(5,6)] assms(4) by simp
  then obtain st where fe: "fetchEvents m cursor (attempts env) (api s) = (Threw (BAD_CURSOR cursor), st)"
    by (cases "fetchEvents m cursor (attempts env) (api s)") simp
  have s1: "s1 = s\<lparr>fetchQueue := [None], lastCursor := None,
                   api := sleep (Num 5000) (over_cooldown env) st\<rparr>"
    using assms(2,3,7) q fe by (simp add: fetcher_turn_def)
  have next_req: "\<exists>t later.
               requests (api (run_turns m (ws @ [FetcherTurn env1]) s1)) =
                 requests (api s1) @ (t, None) # later \<and> clock (api s1) \<le> t"
    if w: "\<forall>t \<in> set ws. is_writer_turn t" and e: "attempts env1 = b # bs" for ws env1 b bs
  proof -
    let ?s2 = "run_turns m ws s1"
    from run_writer_turns_fetch_side [OF w, of m s1] s1 assms(2)
    have side: "fetchQueue ?s2 = [None]" "fetcher ?s2 = Running" "api ?s2 = api s1" by simp_all
    from fetcher_turn_first_request [OF side(2) side(1) e, of m] obtain later where
      "requests (api (fetcher_turn m env1 ?s2)) =
         requests (api ?s2) @ (start_time m b (api ?s2), cursor_param None) # later" by blast
    moreover have "clock (api ?s2) \<le> start_time m b (api ?s2)" by (rule start_time_ge)
    ultimately show ?thesis
      by (auto simp: run_turns_append side(3) cursor_param_def)
  qed
  from thrown s1 fe next_req assms(2) show ?thesis
    by (simp add: sleep_def timer_delay_def TIMEOUT_MAX_def)
qed

theorem stale_cursor_restarts_from_the_beginning_witness:
  "fst (fetchEvents 500 (Some ''c1'')
          [reply 429 (Some (Num 2)) last_page, reply 400 None last_page] api0) =
     Threw (BAD_CURSOR (Some ''c1'')) \<and>
   fetchQueue (run_turns 500 [fetch_of [reply 429 (Some (Num 2)) last_page, reply 400 None last_page]]
                 (start db_at_c1 api0)) = [None] \<and>
   (\<exists>t later.
      requests (api (run_turns 500
          [fetch_of [reply 429 (Some (Num 2)) last_page, reply 400 None last_page], write_ok,
           fetch_of [reply 200 None last_page]] (start db_at_c1 api0))) =
        [(1000000, Some ''c1''), (1004600, Some ''c1''), (t, None)] @ later \<and> 1009700 \<le> t)"
proof -
  let ?env = "\<lparr>attempts = [reply 429 (Some (Num 2)) last_page, reply 400 None last_page],
               over_cooldown = 0\<rparr>"
  let ?s = "run_turns 500 [] (start db_at_c1 api0)"
  have r: "\<forall>x \<in> set [reply 429 (Some (Num 2)) last_page]. retryable x"
    by (simp add: retryable_def reply_try answer_simps)
  have st: "map_option status (outcome (reply 400 None last_page)) = Some 400"
    by (simp add: reply_simps answer_simps)
  have run: "fetcher ?s = Running" "fetchQueue ?s = Some ''c1'' # []"
    by (simp_all add: start_def db_at_c1_def getCursor_def Let_def)
  have w: "\<forall>t \<in> set [write_ok]. is_writer_turn t" by (simp add: write_ok_def)
  have s1: "requests (api (fetcher_turn 500 ?env ?s)) = [(1000000, Some ''c1''), (1004600, Some ''c1'')]"
       "clock (api (fetcher_turn 500 ?env ?s)) = 1009700"
    by (simp_all add: runIngestion_def start_def initDb_def getCursor_def getTotalProcessed_def
        quiet_def fetch_of_def write_ok_def fetcher_turn_def writer_turn_def fetchEvents_def
        answer_try catch_block_def reply_simps answer_simps api0_simps throttledRequest_eq
        start_time_def cursor_param_def sleep_def timer_delay_def TIMEOUT_MAX_def
        nullish_default_def nullish_def parse_body_def page_def last_page_def truthy_def
        saveProgress_def js_rem_def no_faults_def Let_def db_at_c1_def)
  have att: "attempts ?env = [reply 429 (Some (Num 2)) last_page] @ [reply 400 None last_page]"
    by simp
  note inst = stale_cursor_restarts_from_the_beginning
    [of ?s 500 "[]" db_at_c1 api0 "Some ''c1''" "[]" ?env "[reply 429 (Some (Num 2)) last_page]"
       "reply 400 None last_page" "fetcher_turn 500 ?env ?s", OF refl run att r st refl]
  note nxt = inst [THEN conjunct2, THEN conjunct2, THEN conjunct2, THEN conjunct2,
       THEN conjunct2, THEN conjunct2, rule_format,
       where ws = "[write_ok]" and b = "reply 200 None last_page" and bs = "[]"
         and ?env1.0 = "\<lparr>attempts = [reply 200 None last_page], over_cooldown = 0\<rparr>"]
  from nxt w s1
  have "\<exists>t later.
      requests (api (run_turns 500 [write_ok, fetch_of [reply 200 None last_page]]
                      (fetcher_turn 500 ?env ?s))) =
        [(1000000, Some ''c1''), (1004600, Some ''c1''), (t, None)] @ later \<and> 1009700 \<le> t"
    by (simp add: fetch_of_def)
  moreover
  from inst
  have "fst (fetchEvents 500 (Some ''c1'')
          [reply 429 (Some (Num 2)) last_page, reply 400 None last_page] api0) =
     Threw (BAD_CURSOR (Some ''c1'')) \<and> fetchQueue (fetcher_turn 500 ?env ?s) = [None]"
    by (simp add: start_def Let_def)
  ultimately show ?thesis by (simp add: fetch_of_def)
qed

subsection \<open>Errors that fetchEvents rethrows\<close>




subsection \<open>The checkpoint\<close>

text \<open>
  Both calls of \<open>saveProgress\<close> in \<open>runIngestion\<close> pass the count 0, and nothing else
  there writes \<open>ingestion_state\<close>: no run changes \<open>total_processed\<close>, whatever the turns
  and the failures. \<open>processBatch\<close> of worker.ts, which the pipeline does not call, adds
  the length of the batch.
\<close>

lemma fallback_loop_state:
  "ingestion_state (snd (fallback_loop fails evs i n d)) = ingestion_state d"
proof (induction fails evs i n d rule: fallback_loop.induct)
  case (1 fails evs i inserted d)
  show ?case
  proof (cases "i < length evs \<and> \<not> fails i")
    case False
    then show ?thesis
      by (cases "i < length evs") (simp_all add: fallback_loop_stop fallback_loop_fail del: fallback_loop.simps)
  next
    case True
    then have a: "i < length evs" and b: "\<not> fails i" by simp_all
    from "1.IH" [OF a refl refl refl b] show ?thesis
      by (simp add: fallback_loop_step [of i evs fails inserted d, OF a b] del: fallback_loop.simps)
  qed
qed

lemma bulkInsertEvents_state:
  "ingestion_state (snd (bulkInsertEvents f evs d)) = ingestion_state d"
  by (auto simp: bulkInsertEvents_def fallbackInsert_def fallback_loop_state
      split: prod.splits option.splits simp del: fallback_loop.simps)

lemma saveProgress_zero:
  "getTotalProcessed (snd (saveProgress fails c 0 d)) = getTotalProcessed d"
  by (auto simp: saveProgress_def getTotalProcessed_def split: option.splits)

lemma fetcher_turn_pool: "pool (fetcher_turn m env s) = pool s"
  by (auto simp: fetcher_turn_def Let_def
      split: list.splits prod.splits fetch_result.splits fetch_error.splits)

lemma writer_turn_total:
  "getTotalProcessed (pool (writer_turn env s)) = getTotalProcessed (pool s)"
proof (cases "bulkInsertEvents (db_faults env) (fst (hd (writeQueue s))) (pool s)")
  case (Pair r d)
  have "getTotalProcessed d = getTotalProcessed (pool s)"
    using bulkInsertEvents_state [of "db_faults env" "fst (hd (writeQueue s))" "pool s"] Pair
    by (simp add: getTotalProcessed_def)
  with Pair show ?thesis
    by (cases r) (auto simp: writer_turn_def Let_def saveProgress_zero split: list.splits)
qed

lemma run_turns_total:
  "getTotalProcessed (pool (run_turns m ts s)) = getTotalProcessed (pool s)"
proof (induction ts arbitrary: s)
  case Nil
  show ?case by simp
next
  case (Cons t ts)
  then show ?case by (cases t) (simp_all add: fetcher_turn_pool writer_turn_total)
qed

lemma runIngestion_never_counts:
  "getTotalProcessed (snd (runIngestion m renv ts db0 st0)) =
     (if initDb_fails renv then getTotalProcessed db0 else getTotalProcessed (initDb db0))"
  by (simp add: runIngestion_def Let_def run_turns_total saveProgress_zero start_def)

lemma processBatch_counts:
  "ingestion_state (snd (processBatch no_faults False
      [sample_event ''a'', sample_event ''b'', sample_event ''c''] None (initDb empty_db))) =
     Some (None, 3)"
  by (simp add: processBatch_def bulkInsertEvents_def primary_path_ok no_faults_def
      saveProgress_def initDb_def empty_db_def)

text \<open>
  Claim C1. From an empty store, with one page of the three events a, b, c and
  \<open>hasMore = false\<close>, the run exits with code 0, the table holds the three rows and the
  checkpoint has no cursor; but its \<open>total_processed\<close> is 0, not 3.
\<close>

theorem single_page_of_three_events:
  "runIngestion 500 quiet [fetch_of [reply 200 None last_page], write_ok, write_ok] empty_db api0 =
     (Exit 0,
      \<lparr>events = [event_values (sample_event ''a''), event_values (sample_event ''b''),
                 event_values (sample_event ''c'')],
       ingestion_state = Some (None, 0),
       stmts = [Connect, Begin, CreateStaging, CopyStaging, MergeStaging, Commit, Release,
                UpdateState]\<rparr>)"
  by (simp add: runIngestion_def start_def initDb_def getCursor_def getTotalProcessed_def
      quiet_def fetch_of_def write_ok_def fetcher_turn_def writer_turn_def fetchEvents_def
      answer_try catch_block_def reply_simps answer_simps api0_simps throttledRequest_eq
      start_time_def cursor_param_def sleep_def timer_delay_def TIMEOUT_MAX_def
      nullish_default_def nullish_def parse_body_def page_def last_page_def truthy_def
      saveProgress_def js_rem_def no_faults_def Let_def empty_db_def
      bulkInsertEvents_def primary_path_ok sample_values row_id_def)

subsection \<open>The spacing of requests over a run\<close>

lemma fetcher_turn_paced:
  assumes "paced m (api s)" and "\<forall>a \<in> set (attempts env). sane_retry_after m a"
  shows "paced m (api (fetcher_turn m env s))"
proof (cases "fetcher s = Running \<and> fetchQueue s \<noteq> []")
  case False
  with assms(1) show ?thesis
    by (auto simp: fetcher_turn_def split: list.splits)
next
  case True
  then obtain c q where q: "fetchQueue s = c # q" by (cases "fetchQueue s") auto
  have p: "paced m (snd (fetchEvents m c (attempts env) (api s)))"
    unfolding fetchEvents_def by (rule loop_paced [OF assms])
  show ?thesis
  proof (cases "fetchEvents m c (attempts env) (api s)")
    case (Pair r st)
    with p True q show ?thesis
      by (cases r) (auto simp: fetcher_turn_def Let_def sleep_paced split: fetch_error.splits)
  qed
qed

lemma run_turns_paced:
  "paced m (api s) \<Longrightarrow> \<forall>t \<in> set ts. sane_turn m t \<Longrightarrow> paced m (api (run_turns m ts s))"
proof (induction ts arbitrary: s)
  case Nil
  then show ?case by simp
next
  case (Cons t ts)
  show ?case
  proof (cases t)
    case (FetcherTurn env)
    with Cons.prems have "paced m (api (fetcher_turn m env s))"
      by (simp add: fetcher_turn_paced)
    from Cons.IH [OF this] Cons.prems(2) FetcherTurn show ?thesis by simp
  next
    case (WriterTurn env)
    with Cons.prems have "paced m (api (writer_turn env s))"
      by (simp add: writer_turn_fetch_side)
    from Cons.IH [OF this] Cons.prems(2) WriterTurn show ?thesis by simp
  qed
qed

end
